theory Spec2Isabelle
  imports Main "HOL-Library.Multiset" "HOL-Library.AList" "HOL-Library.Monad_Syntax"
    "HOL-Library.Sublist"
begin

section \<open>History aggregator\<close>

text \<open>
  The helpers \<open>getPlanningItemHistory\<close> and \<open>getGroupedCoverageHistory\<close> read a
  list of history entries. An entry is a plain object
  \<open>{operation, update: {coverage_id?, planning?, assigned_to?, workflow_status?, pubstatus?},
  user_id, _created}\<close>. Every optional property is an \<open>option\<close>: \<open>None\<close> is an absent
  (undefined or null) property. The helpers only test values for truthiness, so a string
  property is truthy when it is present and not the empty string, and an object property
  (\<open>assigned_to\<close>) is truthy whenever it is present. An object whose keys matter
  (\<open>assigned_to\<close>, and the result of the grouping) is an association list in insertion
  order with distinct keys.
\<close>

record planning_update =
  g2_content_type :: "string option"
  scheduled :: "string option"

record update_rec =
  upd_coverage_id :: "string option"
  upd_planning :: "planning_update option"
  upd_assigned_to :: "(string \<times> string) list option"
  upd_workflow_status :: "string option"
  upd_pubstatus :: "string option"

record history_item =
  operation :: string
  update :: "update_rec option"
  user_id :: "string option"
  created :: string

text \<open>\<open>moment(x)\<close> builds a date object from \<open>x\<close>; the object is kept as a wrapper of its input.\<close>

datatype moment = Moment string

record cov_planning =
  cov_g2_content_type :: "string option"
  cov_scheduled :: "moment option"

record coverage_history =
  items :: "history_item list"
  planning :: cov_planning
  assigned_to :: "(string \<times> string) list"
  workflow_status :: "string option"

text \<open>Truthiness of an optional string: absent and the empty string are falsy.\<close>

definition truthy :: "string option \<Rightarrow> bool" where
  "truthy v = (case v of None \<Rightarrow> False | Some s \<Rightarrow> s \<noteq> [])"

text \<open>
  lodash \<open>get(item, 'update.coverage_id')\<close> and its siblings: a missing step of the path
  gives undefined instead of raising.
\<close>

definition get_coverage_id :: "history_item \<Rightarrow> string option" where
  "get_coverage_id item = Option.bind (update item) upd_coverage_id"

definition get_g2_content_type :: "history_item \<Rightarrow> string option" where
  "get_g2_content_type item =
     Option.bind (Option.bind (update item) upd_planning) g2_content_type"

definition get_scheduled :: "history_item \<Rightarrow> string option" where
  "get_scheduled item = Option.bind (Option.bind (update item) upd_planning) scheduled"

definition get_assigned_to :: "history_item \<Rightarrow> (string \<times> string) list option" where
  "get_assigned_to item = Option.bind (update item) upd_assigned_to"

definition get_workflow_status :: "history_item \<Rightarrow> string option" where
  "get_workflow_status item = Option.bind (update item) upd_workflow_status"

text \<open>The object spread \<open>{...a, ...b}\<close>: the keys of \<open>a\<close>, then each key of \<open>b\<close> written in turn.\<close>

definition spread :: "(string \<times> 'v) list \<Rightarrow> (string \<times> 'v) list \<Rightarrow> (string \<times> 'v) list" where
  "spread a b = fold (\<lambda>(k, v). AList.update k v) b a"

text \<open>\<open>getPlanningItemHistory\<close>: the body of the \<open>forEach\<close>, then the loop from \<open>[]\<close>.\<close>

definition planningHistoryStep :: "history_item list \<Rightarrow> history_item \<Rightarrow> history_item list" where
  "planningHistoryStep history item =
     (if \<not> truthy (get_coverage_id item) then history @ [item] else history)"

definition getPlanningItemHistory :: "history_item list \<Rightarrow> history_item list" where
  "getPlanningItemHistory historyItems = foldl planningHistoryStep [] historyItems"

text \<open>
  \<open>getGroupedCoverageHistory\<close>. The accumulator \<open>covHistory\<close> is the object keyed by
  coverage id. The record a step creates and the writes of lines 33 to 52 on the record
  of the entry's coverage:
\<close>

definition newCoverageHistory :: coverage_history where
  "newCoverageHistory =
     \<lparr>items = [],
      planning = \<lparr>cov_g2_content_type = None, cov_scheduled = None\<rparr>,
      assigned_to = [],
      workflow_status = None\<rparr>"

definition writeCoverage :: "history_item \<Rightarrow> coverage_history \<Rightarrow> coverage_history" where
  "writeCoverage item r0 =
     (let r1 = r0\<lparr>items := items r0 @ [item]\<rparr>;
          r2 = (if truthy (get_g2_content_type item)
                then r1\<lparr>planning := (planning r1)\<lparr>cov_g2_content_type := get_g2_content_type item\<rparr>\<rparr>
                else r1);
          r3 = (if truthy (get_scheduled item)
                then r2\<lparr>planning := (planning r2)\<lparr>cov_scheduled := map_option Moment (get_scheduled item)\<rparr>\<rparr>
                else r2);
          r4 = (case get_assigned_to item of
                  Some a \<Rightarrow> r3\<lparr>assigned_to := spread (assigned_to r3) a\<rparr>
                | None \<Rightarrow> r3);
          r5 = (if truthy (get_workflow_status item)
                then r4\<lparr>workflow_status := get_workflow_status item\<rparr>
                else r4)
      in r5)"

text \<open>
  The test of line 25 is lodash's \<open>get(covHistory, id)\<close>, which is more than a lookup of
  the key \<open>id\<close>:

  \<^item> an own key of \<open>covHistory\<close> is found, and its record is an object, hence truthy;

  \<^item> a name that every object inherits from \<open>Object.prototype\<close> is found too, and what
    it finds (a function, or the prototype itself) is truthy;

  \<^item> an id with a dot or an opening bracket that is neither of these may be read as a
    path. When the id does not start with a bracket, the first key of the path is its
    first segment, the text before the first \<open>.\<close>, \<open>[\<close> or \<open>]\<close>. If that is neither an
    own key nor an inherited name, the path finds nothing. If it is an own key and the
    rest of the id is a dot and one more name, the path finds the property of that name
    of the record: \<open>items\<close>, \<open>planning\<close> and \<open>assigned_to\<close> are objects, hence truthy,
    \<open>workflow_status\<close> is the string written there, if any, an inherited name is a
    function, and any other name is undefined. In the remaining cases the path runs
    deeper, through the properties of an array, of a string, of a date object or of a
    built-in function, objects that are lodash's and the engine's to describe; whether
    it ends in something truthy is the parameter \<open>deep\<close>, and what is proved here holds
    for every \<open>deep\<close>;

  \<^item> any other id finds nothing.
\<close>

definition objectPrototypeNames :: "string list" where
  "objectPrototypeNames =
     [''constructor'', ''__proto__'', ''hasOwnProperty'', ''isPrototypeOf'',
      ''propertyIsEnumerable'', ''toLocaleString'', ''toString'', ''valueOf'',
      ''__defineGetter__'', ''__defineSetter__'', ''__lookupGetter__'', ''__lookupSetter__'']"

definition pathLike :: "string \<Rightarrow> bool" where
  "pathLike cid = (CHR ''.'' \<in> set cid \<or> CHR ''['' \<in> set cid)"

definition firstSegment :: "string \<Rightarrow> string" where
  "firstSegment cid = takeWhile (\<lambda>c. c \<noteq> CHR ''.'' \<and> c \<noteq> CHR ''['' \<and> c \<noteq> CHR '']'') cid"

definition recordPropertyTruthy :: "coverage_history \<Rightarrow> string \<Rightarrow> bool" where
  "recordPropertyTruthy r name =
     (name \<in> set [''items'', ''planning'', ''assigned_to'']
      \<or> name \<in> set objectPrototypeNames
      \<or> (name = ''workflow_status'' \<and> truthy (workflow_status r)))"

type_synonym deep_get = "(string \<times> coverage_history) list \<Rightarrow> string \<Rightarrow> bool"

definition get_truthy :: "deep_get \<Rightarrow> (string \<times> coverage_history) list \<Rightarrow> string \<Rightarrow> bool" where
  "get_truthy deep covHistory cid =
     (if map_of covHistory cid \<noteq> None then True
      else if cid \<in> set objectPrototypeNames then True
      else if pathLike cid then
        (if hd cid = CHR ''['' \<or> hd cid = CHR '']'' then deep covHistory cid
         else
           (case map_of covHistory (firstSegment cid) of
              None \<Rightarrow>
                if firstSegment cid \<in> set objectPrototypeNames then deep covHistory cid
                else False
            | Some r \<Rightarrow>
                (case drop (length (firstSegment cid)) cid of
                   [] \<Rightarrow> deep covHistory cid
                 | c # name \<Rightarrow>
                     if c = CHR ''.'' \<and> \<not> pathLike name \<and> CHR '']'' \<notin> set name
                     then recordPropertyTruthy r name
                     else deep covHistory cid)))
      else False)"

text \<open>
  The body of the \<open>forEach\<close>. Line 33 reads \<open>covHistory[id].items\<close> with a plain property
  access and spreads it into a new array. When \<open>id\<close> is not an own key this is a property
  of \<open>undefined\<close>, or the spread of the undefined \<open>items\<close> of an inherited value: the call
  stops there with a \<open>TypeError\<close>. That happens exactly when the test of line 25 found
  something truthy that is not a record of \<open>covHistory\<close>, so that no record was created.
\<close>

datatype error = TypeError

definition coverageHistoryStep ::
  "deep_get \<Rightarrow> (string \<times> coverage_history) list \<Rightarrow> history_item
     \<Rightarrow> error + (string \<times> coverage_history) list" where
  "coverageHistoryStep deep covHistory item =
     (if truthy (get_coverage_id item) then
        (let cid = the (get_coverage_id item);
             covHistory1 = (if \<not> get_truthy deep covHistory cid
                            then AList.update cid newCoverageHistory covHistory
                            else covHistory)
         in (case map_of covHistory1 cid of
               None \<Rightarrow> Inl TypeError
             | Some r \<Rightarrow> Inr (AList.update cid (writeCoverage item r) covHistory1)))
      else Inr covHistory)"

text \<open>The \<open>forEach\<close>: an exception in the body ends the loop and the call.\<close>

fun coverageHistoryForEach ::
  "deep_get \<Rightarrow> (string \<times> coverage_history) list \<Rightarrow> history_item list
     \<Rightarrow> error + (string \<times> coverage_history) list" where
  "coverageHistoryForEach deep covHistory [] = Inr covHistory"
| "coverageHistoryForEach deep covHistory (item # rest) =
     (case coverageHistoryStep deep covHistory item of
        Inl err \<Rightarrow> Inl err
      | Inr covHistory' \<Rightarrow> coverageHistoryForEach deep covHistory' rest)"

definition getGroupedCoverageHistory ::
  "deep_get \<Rightarrow> history_item list \<Rightarrow> error + (string \<times> coverage_history) list" where
  "getGroupedCoverageHistory deep historyItems = coverageHistoryForEach deep [] historyItems"

text \<open>
  Coverage ids on which the test of line 25 is the lookup of an own key, whatever \<open>deep\<close>
  is: the truthy coverage ids of a list are plain when none of them is an inherited name
  and each one with a dot or an opening bracket starts with an ordinary character and
  has a first segment that is neither an inherited name nor a coverage id of the list.
  The \<open>urn:newsml:\<close> ids of the planning server are of that kind.
\<close>

definition coverageIds :: "history_item list \<Rightarrow> string list" where
  "coverageIds es =
     map (\<lambda>e. the (get_coverage_id e)) (filter (\<lambda>e. truthy (get_coverage_id e)) es)"

definition plainKey :: "string list \<Rightarrow> string \<Rightarrow> bool" where
  "plainKey ids cid =
     (cid \<notin> set objectPrototypeNames
      \<and> (pathLike cid \<longrightarrow>
            hd cid \<noteq> CHR ''['' \<and> hd cid \<noteq> CHR '']''
            \<and> firstSegment cid \<notin> set ids
            \<and> firstSegment cid \<notin> set objectPrototypeNames))"

definition plainIds :: "history_item list \<Rightarrow> bool" where
  "plainIds es = list_all (plainKey (coverageIds es)) (coverageIds es)"

text \<open>
  For the proofs: the grouping of a list by own key, each step writing to the record of
  the entry's coverage id, a new one when the key is missing. It is what
  \<open>getGroupedCoverageHistory\<close> returns whenever it returns.
\<close>

definition groupStep ::
  "(string \<times> coverage_history) list \<Rightarrow> history_item \<Rightarrow> (string \<times> coverage_history) list" where
  "groupStep covHistory item =
     (if truthy (get_coverage_id item) then
        (let cid = the (get_coverage_id item);
             r0 = (case map_of covHistory cid of
                     None \<Rightarrow> newCoverageHistory
                   | Some r \<Rightarrow> r)
         in AList.update cid (writeCoverage item r0) covHistory)
      else covHistory)"

definition grouping :: "history_item list \<Rightarrow> (string \<times> coverage_history) list" where
  "grouping historyItems = foldl groupStep [] historyItems"


subsection \<open>The latest-value reading of the grouping\<close>

text \<open>
  The entries of one coverage, in input order; the value of a field in the last entry that
  set it (\<open>lastSet\<close>, \<open>lastAssignedTo\<close>); and the key-wise merge of all \<open>assigned_to\<close>
  objects of a coverage in input order (\<open>mergedAssignedTo\<close>). \<open>aggregate\<close> replays the
  writes of one group on its record.
\<close>

definition hasCoverageId :: "string \<Rightarrow> history_item \<Rightarrow> bool" where
  "hasCoverageId cid e = (truthy (get_coverage_id e) \<and> get_coverage_id e = Some cid)"

definition coverageEntries :: "string \<Rightarrow> history_item list \<Rightarrow> history_item list" where
  "coverageEntries cid es = filter (hasCoverageId cid) es"

definition lastSet :: "(history_item \<Rightarrow> string option) \<Rightarrow> history_item list \<Rightarrow> string option" where
  "lastSet f es =
     (let xs = filter (\<lambda>e. truthy (f e)) es in if xs = [] then None else f (last xs))"

definition lastAssignedTo :: "history_item list \<Rightarrow> (string \<times> string) list" where
  "lastAssignedTo es =
     (let xs = filter (\<lambda>e. get_assigned_to e \<noteq> None) es
      in if xs = [] then [] else the (get_assigned_to (last xs)))"

definition mergedAssignedTo :: "history_item list \<Rightarrow> (string \<times> string) list" where
  "mergedAssignedTo es = foldl spread [] (List.map_filter get_assigned_to es)"

definition aggregate :: "coverage_history \<Rightarrow> history_item list \<Rightarrow> coverage_history" where
  "aggregate r es = foldl (\<lambda>r e. writeCoverage e r) r es"


text \<open>
  The specification's reading of the grouping: each of the four display fields of the
  record of a coverage is the value of the last entry of that coverage that set it.
\<close>

definition latestWins :: "history_item list \<Rightarrow> string \<Rightarrow> coverage_history \<Rightarrow> bool" where
  "latestWins es cid r =
     (cov_g2_content_type (planning r) = lastSet get_g2_content_type (coverageEntries cid es)
    \<and> cov_scheduled (planning r) = map_option Moment (lastSet get_scheduled (coverageEntries cid es))
    \<and> assigned_to r = lastAssignedTo (coverageEntries cid es)
    \<and> workflow_status r = lastSet get_workflow_status (coverageEntries cid es))"

subsection \<open>Example entries\<close>

definition entryDesk :: history_item where
  "entryDesk = \<lparr>operation = ''assign'',
     update = Some \<lparr>upd_coverage_id = Some ''c1'',
                    upd_planning = Some \<lparr>g2_content_type = Some ''text'', scheduled = Some ''2019-01-01''\<rparr>,
                    upd_assigned_to = Some [(''desk'', ''d1'')],
                    upd_workflow_status = Some ''draft'', upd_pubstatus = None\<rparr>,
     user_id = Some ''u0'', created = ''t1''\<rparr>"

definition entryUser :: history_item where
  "entryUser = \<lparr>operation = ''assign'',
     update = Some \<lparr>upd_coverage_id = Some ''c1'', upd_planning = None,
                    upd_assigned_to = Some [(''user'', ''u1'')],
                    upd_workflow_status = Some ''active'', upd_pubstatus = None\<rparr>,
     user_id = Some ''u0'', created = ''t2''\<rparr>"

definition entryEmptyId :: history_item where
  "entryEmptyId = \<lparr>operation = ''update'',
     update = Some \<lparr>upd_coverage_id = Some [], upd_planning = None,
                    upd_assigned_to = None,
                    upd_workflow_status = None, upd_pubstatus = None\<rparr>,
     user_id = Some ''u0'', created = ''t3''\<rparr>"


definition entryConstructor :: history_item where
  "entryConstructor = \<lparr>operation = ''coverage_created'',
     update = Some \<lparr>upd_coverage_id = Some ''constructor'', upd_planning = None,
                    upd_assigned_to = None,
                    upd_workflow_status = None, upd_pubstatus = None\<rparr>,
     user_id = Some ''u0'', created = ''t5''\<rparr>"

definition entryPath :: history_item where
  "entryPath = \<lparr>operation = ''coverage_created'',
     update = Some \<lparr>upd_coverage_id = Some ''c1.items'', upd_planning = None,
                    upd_assigned_to = None,
                    upd_workflow_status = None, upd_pubstatus = None\<rparr>,
     user_id = Some ''u0'', created = ''t6''\<rparr>"

section \<open>Planning edit panel\<close>

text \<open>
  \<open>EditPlanningPanel\<close> keeps the kind of save to perform in its local state. A boolean prop
  that the caller may leave out is a \<open>bool option\<close>, \<open>None\<close> being undefined; such a value is
  truthy only when it is \<open>Some True\<close>.
\<close>

datatype saveMethods = SAVE | PUBLISH | UNPUBLISH | SAVE_PUBLISH | SAVE_UNPUBLISH

record panel_state =
  openUnlockPopup :: bool
  previewHistory :: bool
  saveMethod :: saveMethods

definition initialPanelState :: panel_state where
  "initialPanelState = \<lparr>openUnlockPopup = False, previewHistory = False, saveMethod = SAVE\<rparr>"

definition isTrue :: "bool option \<Rightarrow> bool" where
  "isTrue b = (b = Some True)"

text \<open>The action props of the panel; calling one dispatches the action of that name.\<close>

datatype 'p panel_action =
    Save 'p
  | Publish 'p
  | Unpublish 'p
  | SaveAndPublish 'p
  | SaveAndUnpublish 'p

definition onSubmit :: "panel_state \<Rightarrow> 'p \<Rightarrow> 'p panel_action" where
  "onSubmit st plan =
     (case saveMethod st of
        PUBLISH \<Rightarrow> Publish plan
      | UNPUBLISH \<Rightarrow> Unpublish plan
      | SAVE_PUBLISH \<Rightarrow> SaveAndPublish plan
      | SAVE_UNPUBLISH \<Rightarrow> SaveAndUnpublish plan
      | SAVE \<Rightarrow> Save plan)"

text \<open>
  \<open>handleSave\<close> asks the form to submit: the form validates, calls \<open>onSubmit\<close> with its
  values, and the promise it returns settles with the dispatched action. The form is the
  form library's; what it did is the parameter \<open>outcome\<close>. Only a resolved submission runs
  the continuation that restores the save method.
\<close>

datatype submit_outcome = ValidationFailed | SubmitRejected | SubmitResolved

definition handleSave ::
  "panel_state \<Rightarrow> 'p \<Rightarrow> submit_outcome \<Rightarrow> panel_state \<times> 'p panel_action list" where
  "handleSave st plan outcome =
     (case outcome of
        ValidationFailed \<Rightarrow> (st, [])
      | SubmitRejected \<Rightarrow> (st, [onSubmit st plan])
      | SubmitResolved \<Rightarrow> (st\<lparr>saveMethod := SAVE\<rparr>, [onSubmit st plan]))"

definition handleSaveAndPublish ::
  "bool \<Rightarrow> bool option \<Rightarrow> panel_state \<Rightarrow> 'p \<Rightarrow> submit_outcome
     \<Rightarrow> panel_state \<times> 'p panel_action list" where
  "handleSaveAndPublish pristine readOnly st plan outcome =
     (if pristine \<or> isTrue readOnly
      then handleSave (st\<lparr>saveMethod := PUBLISH\<rparr>) plan outcome
      else handleSave (st\<lparr>saveMethod := SAVE_PUBLISH\<rparr>) plan outcome)"

definition handleSaveAndUnpublish ::
  "bool \<Rightarrow> bool option \<Rightarrow> panel_state \<Rightarrow> 'p \<Rightarrow> submit_outcome
     \<Rightarrow> panel_state \<times> 'p panel_action list" where
  "handleSaveAndUnpublish pristine readOnly st plan outcome =
     (if pristine \<or> isTrue readOnly
      then handleSave (st\<lparr>saveMethod := UNPUBLISH\<rparr>) plan outcome
      else handleSave (st\<lparr>saveMethod := SAVE_UNPUBLISH\<rparr>) plan outcome)"

definition toggleOpenUnlockPopup :: "panel_state \<Rightarrow> panel_state" where
  "toggleOpenUnlockPopup st = st\<lparr>openUnlockPopup := \<not> openUnlockPopup st\<rparr>"

definition viewPlanningHistory :: "panel_state \<Rightarrow> panel_state" where
  "viewPlanningHistory st = st\<lparr>previewHistory := True\<rparr>"

definition closePlanningHistory :: "panel_state \<Rightarrow> panel_state" where
  "closePlanningHistory st = st\<lparr>previewHistory := False\<rparr>"

text \<open>
  \<open>render\<close> computes the read-only state it hands to the form (\<open>forceReadOnly\<close>) from the
  props \<open>readOnly\<close> and \<open>lockedInThisSession\<close> and from \<open>isItemSpiked\<close> of the event and of the
  planning; \<open>isItemSpiked\<close> is a helper outside this component, its two results are
  parameters.
\<close>

definition forceReadOnly :: "bool option \<Rightarrow> bool option \<Rightarrow> bool \<Rightarrow> bool \<Rightarrow> bool option" where
  "forceReadOnly readOnly lockedInThisSession eventSpiked planningSpiked =
     (if \<not> isTrue lockedInThisSession \<or> eventSpiked \<or> planningSpiked
      then Some True
      else readOnly)"

section \<open>Array-field editor\<close>

text \<open>
  \<open>InputArray\<close> is a controlled component: it never changes its list, it hands a new list to
  the \<open>onChange\<close> prop. What a handler does is the list of its effects, in order. The list
  prop \<open>value\<close> may be missing (\<open>None\<close>), which the handlers read as \<open>[]\<close>.
\<close>

datatype 'a array_effect =
    Confirm string
  | OnChange string "'a list"
  | NotifySuccess string

datatype ('x, 'a) default_element = ElementFactory "'x list \<Rightarrow> 'a" | ElementValue 'a

definition orEmpty :: "'a list option \<Rightarrow> 'a list" where
  "orEmpty value = (case value of None \<Rightarrow> [] | Some xs \<Rightarrow> xs)"

definition onAdd ::
  "string \<Rightarrow> 'a list option \<Rightarrow> ('x, 'a) default_element \<Rightarrow> 'x list \<Rightarrow> 'a array_effect list" where
  "onAdd field value defaultElement args =
     (let currentValue = orEmpty value;
          newElement = (case defaultElement of
                          ElementFactory f \<Rightarrow> f args
                        | ElementValue v \<Rightarrow> v)
      in [OnChange field (currentValue @ [newElement])])"

text \<open>\<open>xs.filter((value, i) => i !== index)\<close>\<close>

definition filterIndex :: "nat \<Rightarrow> 'a list \<Rightarrow> 'a list" where
  "filterIndex index xs = map snd (filter (\<lambda>(i, v). i \<noteq> index) (enumerate 0 xs))"

text \<open>
  \<open>remove\<close> opens the confirmation dialog; \<open>response\<close> is the user's answer, with which the
  continuation runs. The two messages are shown as written, \<open>gettext\<close> left aside.
\<close>

definition remove_index :: "string \<Rightarrow> 'a list option \<Rightarrow> nat \<Rightarrow> bool \<Rightarrow> 'a array_effect list" where
  "remove_index field value index response =
     Confirm ''Remove Coverage'' #
       (if response
        then [OnChange field (filterIndex index (orEmpty value)),
              NotifySuccess ''The coverage has been removed'']
        else [])"

text \<open>
  The owner of the list stores what \<open>onChange\<close> hands it and passes it back as the \<open>value\<close>
  prop; the other effects leave the list alone.
\<close>

definition deliver :: "'a list option \<Rightarrow> 'a array_effect \<Rightarrow> 'a list option" where
  "deliver value eff = (case eff of OnChange field xs \<Rightarrow> Some xs | _ \<Rightarrow> value)"

definition deliverAll :: "'a list option \<Rightarrow> 'a array_effect list \<Rightarrow> 'a list option" where
  "deliverAll value effs = foldl deliver value effs"

text \<open>The two render-time policies: whether the add button shows, and the per-row read-only flag.\<close>

definition showAddButton :: "nat \<Rightarrow> 'a list \<Rightarrow> bool \<Rightarrow> bool" where
  "showAddButton maxCount value readOnly =
     ((if maxCount \<noteq> 0 then length value < maxCount else True) \<and> \<not> readOnly)"

definition isIndexReadOnly :: "bool \<Rightarrow> nat \<Rightarrow> bool \<Rightarrow> nat \<Rightarrow> bool" where
  "isIndexReadOnly addOnly originalCount readOnly index =
     (if addOnly \<and> index = originalCount then False else readOnly)"

section \<open>Related-articles search modal\<close>

text \<open>
  \<open>EventsRelatedArticlesModal\<close>. A value that may be \<open>null\<close> or \<open>undefined\<close> keeps the two
  apart, since the component compares them with \<open>!==\<close> and tests them with \<open>== null\<close>. An
  article is JSON data as the search API returns it: an object, here the association list
  of its properties in insertion order, a property value being a string or \<open>null\<close> (\<open>None\<close>).
\<close>

datatype 'a nullable = Null | Undefined | Val 'a

definition isNullish :: "'a nullable \<Rightarrow> bool" where
  "isNullish v = (case v of Val x \<Rightarrow> False | _ \<Rightarrow> True)"

type_synonym article = "(string \<times> string option) list"

text \<open>Reading a property: a missing one is \<open>undefined\<close>.\<close>

definition getProp :: "article \<Rightarrow> string \<Rightarrow> string nullable" where
  "getProp a k =
     (case map_of a k of
        None \<Rightarrow> Undefined
      | Some None \<Rightarrow> Null
      | Some (Some v) \<Rightarrow> Val v)"

text \<open>
  \<open>JSON.stringify\<close> on an array of articles: the text it returns. A string is written
  between double quotes, with the double quote, the backslash and the control characters
  escaped; an object is written as its properties in insertion order.
\<close>

definition hexDigit :: "nat \<Rightarrow> char" where
  "hexDigit n = ''0123456789abcdef'' ! n"

definition escapeChar :: "char \<Rightarrow> string" where
  "escapeChar c =
     (if c = CHR 0x22 then [CHR 0x5C, CHR 0x22]
      else if c = CHR 0x5C then [CHR 0x5C, CHR 0x5C]
      else if c = CHR 0x08 then [CHR 0x5C, CHR ''b'']
      else if c = CHR 0x0C then [CHR 0x5C, CHR ''f'']
      else if c = CHR 0x0A then [CHR 0x5C, CHR ''n'']
      else if c = CHR 0x0D then [CHR 0x5C, CHR ''r'']
      else if c = CHR 0x09 then [CHR 0x5C, CHR ''t'']
      else if (of_char c :: nat) < 32
        then [CHR 0x5C, CHR ''u'', CHR ''0'', CHR ''0'',
              hexDigit (of_char c div 16), hexDigit (of_char c mod 16)]
      else [c])"

definition quote :: "string \<Rightarrow> string" where
  "quote s = CHR 0x22 # concat (map escapeChar s) @ [CHR 0x22]"

fun commaSep :: "string list \<Rightarrow> string" where
  "commaSep [] = []"
| "commaSep [x] = x"
| "commaSep (x # y # ys) = x @ CHR '','' # commaSep (y # ys)"

definition stringifyValue :: "string option \<Rightarrow> string" where
  "stringifyValue v = (case v of None \<Rightarrow> ''null'' | Some s \<Rightarrow> quote s)"

definition stringifyProperty :: "string \<times> string option \<Rightarrow> string" where
  "stringifyProperty p = quote (fst p) @ CHR '':'' # stringifyValue (snd p)"

definition stringifyArticle :: "article \<Rightarrow> string" where
  "stringifyArticle a = CHR ''{'' # commaSep (map stringifyProperty a) @ [CHR ''}'']"

definition stringify :: "article list \<Rightarrow> string" where
  "stringify xs = CHR ''['' # commaSep (map stringifyArticle xs) @ [CHR '']'']"

text \<open>For the proofs: the two-character escapes, as pairs of a character and its letter.\<close>

definition shortEscapes :: "(char \<times> char) list" where
  "shortEscapes =
     [(CHR 0x22, CHR 0x22), (CHR 0x5C, CHR 0x5C), (CHR 0x08, CHR ''b''), (CHR 0x0C, CHR ''f''),
      (CHR 0x0A, CHR ''n''), (CHR 0x0D, CHR ''r''), (CHR 0x09, CHR ''t'')]"

record language =
  lang_label :: string
  lang_code :: string

record search_provider =
  provider_id :: string
  provider_name :: string

record modal_state =
  articles :: "article list"
  searchQuery :: string
  loading :: bool
  currentlySelectedArticles :: "article list option"
  activeLanguage :: language
  previewItem :: "article option"
  repo :: "string nullable"
  languages :: "language list"

definition allLanguages :: language where
  "allLanguages = \<lparr>lang_label = ''All languages'', lang_code = []\<rparr>"

text \<open>
  The constructor: the local selection starts as the \<open>selectedArticles\<close> prop itself.
  The prop stays what it is while the modal is open: the handlers build new arrays, and
  the caller hears of a selection only on Apply, which closes the modal.
\<close>

definition initialModalState :: "article list option \<Rightarrow> modal_state" where
  "initialModalState selectedArticles =
     \<lparr>articles = [],
      searchQuery = [],
      loading = True,
      currentlySelectedArticles = selectedArticles,
      activeLanguage = allLanguages,
      previewItem = None,
      repo = Null,
      languages = []\<rparr>"

text \<open>
  What the modal is configured with and built on: the configured search-provider name
  (\<open>None\<close> when the configuration has none), the language vocabulary as pairs of name
  and qcode, and \<open>cleanArticlesFields\<close>, which is imported from another module.
\<close>

record modal_env =
  searchProviderName :: "string option"
  languageVocabulary :: "(string \<times> string) list"
  cleanArticlesFields :: "article list \<Rightarrow> article list"

text \<open>\<open>JSON.stringify(undefined)\<close> is \<open>undefined\<close>, of an array it is a string.\<close>

definition jsonStringify :: "article list option \<Rightarrow> string option" where
  "jsonStringify v = map_option stringify v"

text \<open>The \<open>disabled\<close> prop of the Apply button.\<close>

definition applyDisabled :: "article list option \<Rightarrow> modal_state \<Rightarrow> bool" where
  "applyDisabled selectedArticles st =
     (jsonStringify selectedArticles = jsonStringify (currentlySelectedArticles st))"

text \<open>
  The things that happen to the mounted modal: the user's clicks and submissions, the
  answer to the provider lookup that \<open>componentDidMount\<close> sent, and the answer to a page
  request.
\<close>

datatype modal_event =
    CancelClicked
  | ApplyClicked
  | SearchSubmitted string
  | LanguageSelected language
  | PreviewSet article
  | PreviewClosed
  | RemoveArticle string
  | AddArticle article
  | ProvidersLoaded "search_provider list"
  | PageLoaded

datatype modal_effect = CloseModal | OnChangeSelection "article list"

text \<open>
  \<open>componentDidMount\<close> sends the provider lookup only when a name is configured. The
  continuation of the lookup: \<open>result._items.find(...)?._id\<close>, then \<open>setState\<close>.
\<close>

definition resolveRepo :: "string \<Rightarrow> search_provider list \<Rightarrow> string nullable" where
  "resolveRepo name providers =
     (case find (\<lambda>provider. provider_name provider = name) providers of
        None \<Rightarrow> Undefined
      | Some provider \<Rightarrow> Val (provider_id provider))"

definition providersLoaded :: "modal_env \<Rightarrow> search_provider list \<Rightarrow> modal_state \<Rightarrow> modal_state" where
  "providersLoaded env providers st =
     (case searchProviderName env of
        None \<Rightarrow> st
      | Some name \<Rightarrow>
          st\<lparr>repo := resolveRepo name providers,
             languages := map (\<lambda>(name, qcode). \<lparr>lang_label = name, lang_code = qcode\<rparr>)
                            (languageVocabulary env) @ [allLanguages]\<rparr>)"

text \<open>
  The handlers given to the rows. A row is rendered for an item of a fetched page, and
  \<open>getItems\<close> yields no item while \<open>repo\<close> is \<open>null\<close> or \<open>undefined\<close>, so a row handler runs
  with a resolved \<open>repo\<close>: \<open>addArticle\<close> receives the string that \<open>this.state.repo\<close> then is.
\<close>

definition removeArticle :: "string \<Rightarrow> modal_state \<Rightarrow> modal_state" where
  "removeArticle articleId st =
     st\<lparr>currentlySelectedArticles :=
          Some (filter (\<lambda>a. getProp a ''guid'' \<noteq> Val articleId)
                  (orEmpty (currentlySelectedArticles st)))\<rparr>"

definition addArticle :: "article \<Rightarrow> string \<Rightarrow> modal_state \<Rightarrow> modal_state" where
  "addArticle a r st =
     st\<lparr>currentlySelectedArticles :=
          Some (orEmpty (currentlySelectedArticles st)
                  @ [AList.update ''search_provider'' (Some r) a])\<rparr>"

text \<open>
  One event on the modal: the new state and the calls of the caller's props. A disabled
  Apply button does not fire.
\<close>

definition handleEvent ::
  "modal_env \<Rightarrow> article list option \<Rightarrow> modal_state \<Rightarrow> modal_event
     \<Rightarrow> modal_state \<times> modal_effect list" where
  "handleEvent env selectedArticles st ev =
     (case ev of
        CancelClicked \<Rightarrow> (st, [CloseModal])
      | ApplyClicked \<Rightarrow>
          (if applyDisabled selectedArticles st then (st, [])
           else (st, [OnChangeSelection
                        (cleanArticlesFields env (orEmpty (currentlySelectedArticles st))),
                      CloseModal]))
      | SearchSubmitted q \<Rightarrow> (st\<lparr>searchQuery := q\<rparr>, [])
      | LanguageSelected l \<Rightarrow> (st\<lparr>activeLanguage := l\<rparr>, [])
      | PreviewSet a \<Rightarrow>
          (case repo st of
             Val r \<Rightarrow> (st\<lparr>previewItem := Some a\<rparr>, [])
           | _ \<Rightarrow> (st, []))
      | PreviewClosed \<Rightarrow> (st\<lparr>previewItem := None\<rparr>, [])
      | RemoveArticle articleId \<Rightarrow>
          (case repo st of
             Val r \<Rightarrow> (removeArticle articleId st, [])
           | _ \<Rightarrow> (st, []))
      | AddArticle a \<Rightarrow>
          (case repo st of
             Val r \<Rightarrow> (addArticle a r st, [])
           | _ \<Rightarrow> (st, []))
      | ProvidersLoaded providers \<Rightarrow> (providersLoaded env providers st, [])
      | PageLoaded \<Rightarrow> (st\<lparr>loading := False\<rparr>, []))"

text \<open>\<open>componentDidUpdate\<close>, run after each state change.\<close>

definition componentDidUpdate :: "modal_state \<Rightarrow> modal_state \<Rightarrow> modal_state" where
  "componentDidUpdate prevState st =
     (if lang_code (activeLanguage prevState) \<noteq> lang_code (activeLanguage st)
         \<or> searchQuery prevState \<noteq> searchQuery st
         \<or> repo prevState \<noteq> repo st
      then st\<lparr>loading := True\<rparr>
      else st)"

definition modalStep ::
  "modal_env \<Rightarrow> article list option \<Rightarrow> modal_state \<Rightarrow> modal_event
     \<Rightarrow> modal_state \<times> modal_effect list" where
  "modalStep env selectedArticles st ev =
     (let (st', effs) = handleEvent env selectedArticles st ev
      in (componentDidUpdate st st', effs))"

text \<open>The state after a sequence of events on the freshly built modal.\<close>

definition modalRun :: "modal_env \<Rightarrow> article list option \<Rightarrow> modal_event list \<Rightarrow> modal_state" where
  "modalRun env selectedArticles evs =
     foldl (\<lambda>st ev. fst (modalStep env selectedArticles st ev))
       (initialModalState selectedArticles) evs"

text \<open>
  \<open>getItems\<close>, the page loader handed to the pagination: either it answers at once,
  without a request, or it sends the request described by the record.
\<close>

record page_request =
  req_page :: nat
  req_max_results :: nat
  req_repo :: string
  req_language :: "string option"
  req_fullTextSearch :: "string option"

datatype fetch =
    Resolved "article list" nat
  | Request page_request

definition getItems :: "(string \<Rightarrow> string) \<Rightarrow> modal_state \<Rightarrow> nat \<Rightarrow> nat \<Rightarrow> fetch" where
  "getItems toLowerCase st pageNo pageSize =
     (case repo st of
        Null \<Rightarrow> Resolved [] 0
      | Undefined \<Rightarrow> Resolved [] 0
      | Val r \<Rightarrow>
          Request \<lparr>req_page = pageNo,
                   req_max_results = pageSize,
                   req_repo = r,
                   req_language = (if lang_code (activeLanguage st) \<noteq> []
                                   then Some (lang_code (activeLanguage st)) else None),
                   req_fullTextSearch = (if searchQuery st \<noteq> []
                                         then Some (toLowerCase (searchQuery st)) else None)\<rparr>)"

text \<open>Whether a sequence of events holds an answer to the lookup that names the configured provider.\<close>

definition providerFound :: "modal_env \<Rightarrow> modal_event \<Rightarrow> bool" where
  "providerFound env ev =
     (case ev of
        ProvidersLoaded providers \<Rightarrow>
          (case searchProviderName env of
             None \<Rightarrow> False
           | Some name \<Rightarrow> find (\<lambda>provider. provider_name provider = name) providers \<noteq> None)
      | _ \<Rightarrow> False)"

definition flushes :: "modal_effect list \<Rightarrow> bool" where
  "flushes effs = list_ex (\<lambda>eff. case eff of OnChangeSelection xs \<Rightarrow> True | _ \<Rightarrow> False) effs"

text \<open>
  The specification's reading of the test on the Apply button: two selections are
  structurally identical when they hold, article by article, the same properties with
  the same values, in whatever order the properties were written.
\<close>

definition sameArticle :: "article \<Rightarrow> article \<Rightarrow> bool" where
  "sameArticle a b = list_all (\<lambda>k. map_of a k = map_of b k) (map fst a @ map fst b)"

definition structurallyIdentical :: "article list option \<Rightarrow> article list option \<Rightarrow> bool" where
  "structurallyIdentical s t =
     (case s of
        None \<Rightarrow> t = None
      | Some xs \<Rightarrow> (case t of None \<Rightarrow> False | Some ys \<Rightarrow> list_all2 sameArticle xs ys))"

subsection \<open>An example configuration\<close>

definition exampleEnv :: modal_env where
  "exampleEnv =
     \<lparr>searchProviderName = Some ''archive'',
      languageVocabulary = [(''English'', ''en'')],
      cleanArticlesFields = (\<lambda>xs. xs)\<rparr>"

definition exampleSelection :: "article list option" where
  "exampleSelection = Some [[(''guid'', Some ''a1''), (''search_provider'', Some ''repo1'')]]"

definition archiveProvider :: search_provider where
  "archiveProvider = \<lparr>provider_id = ''repo1'', provider_name = ''archive''\<rparr>"

definition otherProvider :: search_provider where
  "otherProvider = \<lparr>provider_id = ''repo2'', provider_name = ''wire''\<rparr>"

text \<open>
  A selection whose article was stored with \<open>search_provider\<close> before \<open>headline\<close>, and the
  same article as a search returns it.
\<close>

definition storedSelection :: "article list option" where
  "storedSelection =
     Some [[(''guid'', Some ''a1''), (''search_provider'', Some ''repo1''),
            (''headline'', Some ''Flood'')]]"

definition fetchedArticle :: article where
  "fetchedArticle = [(''guid'', Some ''a1''), (''headline'', Some ''Flood'')]"

section \<open>The history aggregator on an object store\<close>

text \<open>
  Whether the helpers change their input depends on which objects they write to. Here
  objects live in a store, a list of cells addressed by position; a value that refers to
  an object is the address of its cell. An entry is a cell that holds the entry (the
  helpers only read entries, and copy out of them nothing but strings and the
  properties of \<open>assigned_to\<close>); an array holds the addresses of its elements; the objects the
  grouping builds are cells of their own: the \<open>covHistory\<close> object, each record
  \<open>{items, planning, assigned_to, workflow_status}\<close>, each \<open>planning\<close> object and each
  \<open>assigned_to\<close> object.
\<close>

type_synonym addr = nat

datatype cell =
    Entry history_item
  | Array "addr list"
  | CovHistory "(string \<times> addr) list"
  | CovRecord addr addr addr "string option"
  | Planning cov_planning
  | AssignedTo "(string \<times> string) list"

type_synonym store = "cell list"

text \<open>A new object takes the next free address; a write replaces the cell of an object.\<close>

definition alloc :: "'c list \<Rightarrow> 'c \<Rightarrow> 'c list \<times> addr" where
  "alloc h c = (h @ [c], length h)"

definition writeCell :: "'c list \<Rightarrow> addr \<Rightarrow> 'c \<Rightarrow> 'c list" where
  "writeCell h a c = h[a := c]"

text \<open>
  Reads. A read through an address that holds no object of the expected kind gives
  \<open>None\<close>: the script would stop there with a \<open>TypeError\<close>.
\<close>

definition readCell :: "'c list \<Rightarrow> addr \<Rightarrow> 'c option" where
  "readCell h a = (if a < length h then Some (h ! a) else None)"

definition readEntry :: "store \<Rightarrow> addr \<Rightarrow> history_item option" where
  "readEntry h a = (case readCell h a of Some (Entry e) \<Rightarrow> Some e | _ \<Rightarrow> None)"

definition readArray :: "store \<Rightarrow> addr \<Rightarrow> addr list option" where
  "readArray h a = (case readCell h a of Some (Array xs) \<Rightarrow> Some xs | _ \<Rightarrow> None)"

definition readCovHistory :: "store \<Rightarrow> addr \<Rightarrow> (string \<times> addr) list option" where
  "readCovHistory h a = (case readCell h a of Some (CovHistory kvs) \<Rightarrow> Some kvs | _ \<Rightarrow> None)"

definition readPlanning :: "store \<Rightarrow> addr \<Rightarrow> cov_planning option" where
  "readPlanning h a = (case readCell h a of Some (Planning p) \<Rightarrow> Some p | _ \<Rightarrow> None)"

definition readAssignedTo :: "store \<Rightarrow> addr \<Rightarrow> (string \<times> string) list option" where
  "readAssignedTo h a = (case readCell h a of Some (AssignedTo x) \<Rightarrow> Some x | _ \<Rightarrow> None)"

text \<open>\<open>covHistory[cid]\<close> with its four properties: the record's address and what it holds.\<close>

definition recordAt ::
  "store \<Rightarrow> addr \<Rightarrow> string \<Rightarrow> (addr \<times> addr \<times> addr \<times> addr \<times> string option) option" where
  "recordAt h covHistory cid =
     do {
       kvs \<leftarrow> readCovHistory h covHistory;
       r \<leftarrow> map_of kvs cid;
       (case readCell h r of
          Some (CovRecord its pl asg ws) \<Rightarrow> Some (r, its, pl, asg, ws)
        | _ \<Rightarrow> None)
     }"

subsection \<open>\<open>getPlanningItemHistory\<close>\<close>

text \<open>\<open>history.push(item)\<close>\<close>

definition push :: "store \<Rightarrow> addr \<Rightarrow> addr \<Rightarrow> store option" where
  "push h arr x =
     do {
       xs \<leftarrow> readArray h arr;
       Some (writeCell h arr (Array (xs @ [x])))
     }"

definition planningHistoryStep_st :: "store \<Rightarrow> addr \<Rightarrow> addr \<Rightarrow> store option" where
  "planningHistoryStep_st h history item =
     do {
       e \<leftarrow> readEntry h item;
       if \<not> truthy (get_coverage_id e) then push h history item else Some h
     }"

fun planningHistoryLoop :: "store \<Rightarrow> addr \<Rightarrow> addr list \<Rightarrow> store option" where
  "planningHistoryLoop h history [] = Some h"
| "planningHistoryLoop h history (item # rest) =
     do {
       h' \<leftarrow> planningHistoryStep_st h history item;
       planningHistoryLoop h' history rest
     }"

definition getPlanningItemHistory_st :: "store \<Rightarrow> addr \<Rightarrow> (store \<times> addr) option" where
  "getPlanningItemHistory_st h historyItems =
     do {
       elems \<leftarrow> readArray h historyItems;
       let (h1, history) = alloc h (Array []);
       h2 \<leftarrow> planningHistoryLoop h1 history elems;
       Some (h2, history)
     }"

subsection \<open>Reading a grouping back from the store\<close>

text \<open>
  The value a store holds at the address of a \<open>covHistory\<close> object, as the association
  list of records that the helper on values builds: each array read as the list of the
  entries its elements refer to, each record with the contents of its \<open>planning\<close> and
  \<open>assigned_to\<close> objects.
\<close>

definition entriesOf :: "store \<Rightarrow> addr list \<Rightarrow> history_item list" where
  "entriesOf h xs = List.map_filter (readEntry h) xs"

definition arrayOf :: "store \<Rightarrow> addr \<Rightarrow> addr list" where
  "arrayOf h a = (case readArray h a of Some xs \<Rightarrow> xs | None \<Rightarrow> [])"

definition recordOf :: "store \<Rightarrow> addr \<Rightarrow> coverage_history" where
  "recordOf h r =
     (case readCell h r of
        Some (CovRecord its pl asg ws) \<Rightarrow>
          \<lparr>items = entriesOf h (arrayOf h its),
           planning = (case readPlanning h pl of Some p \<Rightarrow> p | None \<Rightarrow> planning newCoverageHistory),
           assigned_to = (case readAssignedTo h asg of Some a \<Rightarrow> a | None \<Rightarrow> []),
           workflow_status = ws\<rparr>
      | _ \<Rightarrow> newCoverageHistory)"

definition groupingOf :: "store \<Rightarrow> addr \<Rightarrow> (string \<times> coverage_history) list" where
  "groupingOf h cov =
     (case readCovHistory h cov of
        Some kvs \<Rightarrow> map (\<lambda>(k, r). (k, recordOf h r)) kvs
      | None \<Rightarrow> [])"

subsection \<open>\<open>getGroupedCoverageHistory\<close>\<close>

text \<open>
  Lines 26 to 30: a new record, with a new \<open>items\<close> array and new \<open>planning\<close> and
  \<open>assigned_to\<close> objects, is stored under the coverage id.
\<close>

definition newRecord :: "store \<Rightarrow> addr \<Rightarrow> string \<Rightarrow> store option" where
  "newRecord h covHistory cid =
     do {
       kvs \<leftarrow> readCovHistory h covHistory;
       let (h1, its) = alloc h (Array []);
       let (h2, pl) = alloc h1 (Planning \<lparr>cov_g2_content_type = None, cov_scheduled = None\<rparr>);
       let (h3, asg) = alloc h2 (AssignedTo []);
       let (h4, r) = alloc h3 (CovRecord its pl asg None);
       Some (writeCell h4 covHistory (CovHistory (AList.update cid r kvs)))
     }"

text \<open>Line 33: \<open>items\<close> becomes a new array, the old items and the entry.\<close>

definition appendItem :: "store \<Rightarrow> addr \<Rightarrow> string \<Rightarrow> addr \<Rightarrow> store option" where
  "appendItem h covHistory cid item =
     do {
       (r, its, pl, asg, ws) \<leftarrow> recordAt h covHistory cid;
       xs \<leftarrow> readArray h its;
       let (h1, its') = alloc h (Array (xs @ [item]));
       Some (writeCell h1 r (CovRecord its' pl asg ws))
     }"

text \<open>Lines 36 and 40: a property of the record's \<open>planning\<close> object is written in place.\<close>

definition setG2ContentType :: "store \<Rightarrow> addr \<Rightarrow> string \<Rightarrow> string option \<Rightarrow> store option" where
  "setG2ContentType h covHistory cid v =
     do {
       (r, its, pl, asg, ws) \<leftarrow> recordAt h covHistory cid;
       p \<leftarrow> readPlanning h pl;
       Some (writeCell h pl (Planning (p\<lparr>cov_g2_content_type := v\<rparr>)))
     }"

definition setScheduled :: "store \<Rightarrow> addr \<Rightarrow> string \<Rightarrow> moment option \<Rightarrow> store option" where
  "setScheduled h covHistory cid v =
     do {
       (r, its, pl, asg, ws) \<leftarrow> recordAt h covHistory cid;
       p \<leftarrow> readPlanning h pl;
       Some (writeCell h pl (Planning (p\<lparr>cov_scheduled := v\<rparr>)))
     }"

text \<open>Lines 44 to 47: \<open>assigned_to\<close> becomes a new object, the spread of the old one and the entry's.\<close>

definition setAssignedTo ::
  "store \<Rightarrow> addr \<Rightarrow> string \<Rightarrow> (string \<times> string) list \<Rightarrow> store option" where
  "setAssignedTo h covHistory cid a =
     do {
       (r, its, pl, asg, ws) \<leftarrow> recordAt h covHistory cid;
       old \<leftarrow> readAssignedTo h asg;
       let (h1, asg') = alloc h (AssignedTo (spread old a));
       Some (writeCell h1 r (CovRecord its pl asg' ws))
     }"

text \<open>Line 51.\<close>

definition setWorkflowStatus :: "store \<Rightarrow> addr \<Rightarrow> string \<Rightarrow> string option \<Rightarrow> store option" where
  "setWorkflowStatus h covHistory cid v =
     do {
       (r, its, pl, asg, ws) \<leftarrow> recordAt h covHistory cid;
       Some (writeCell h r (CovRecord its pl asg v))
     }"

text \<open>
  The statements of the loop body run in order. Each one either raises, before it has
  written anything, or gives the next store; the first one that raises ends the run, and
  the store is then what the statements before it made of it.
\<close>

fun runStatements :: "store \<Rightarrow> (store \<Rightarrow> store option) list \<Rightarrow> store \<times> error option" where
  "runStatements h [] = (h, None)"
| "runStatements h (s # ss) =
     (case s h of
        None \<Rightarrow> (h, Some TypeError)
      | Some h' \<Rightarrow> runStatements h' ss)"

text \<open>
  The body of the \<open>forEach\<close>. The test of line 25 is lodash's \<open>get\<close> on the \<open>covHistory\<close>
  object, that is on the grouping the store holds there; when it finds something for an
  id that is not an own key, no record is created and line 33 raises.
\<close>

definition coverageHistoryStep_st ::
  "deep_get \<Rightarrow> store \<Rightarrow> addr \<Rightarrow> addr \<Rightarrow> store \<times> error option" where
  "coverageHistoryStep_st deep h covHistory item =
     (case readEntry h item of
        None \<Rightarrow> (h, Some TypeError)
      | Some e \<Rightarrow>
          if truthy (get_coverage_id e) then
            (let cid = the (get_coverage_id e)
             in runStatements h
                  [\<lambda>h. if \<not> get_truthy deep (groupingOf h covHistory) cid
                        then newRecord h covHistory cid
                        else Some h,
                   \<lambda>h. appendItem h covHistory cid item,
                   \<lambda>h. if truthy (get_g2_content_type e)
                        then setG2ContentType h covHistory cid (get_g2_content_type e)
                        else Some h,
                   \<lambda>h. if truthy (get_scheduled e)
                        then setScheduled h covHistory cid (map_option Moment (get_scheduled e))
                        else Some h,
                   \<lambda>h. case get_assigned_to e of
                          Some a \<Rightarrow> setAssignedTo h covHistory cid a
                        | None \<Rightarrow> Some h,
                   \<lambda>h. if truthy (get_workflow_status e)
                        then setWorkflowStatus h covHistory cid (get_workflow_status e)
                        else Some h])
          else (h, None))"

fun coverageHistoryLoop ::
  "deep_get \<Rightarrow> store \<Rightarrow> addr \<Rightarrow> addr list \<Rightarrow> store \<times> error option" where
  "coverageHistoryLoop deep h covHistory [] = (h, None)"
| "coverageHistoryLoop deep h covHistory (item # rest) =
     (case coverageHistoryStep_st deep h covHistory item of
        (h', Some err) \<Rightarrow> (h', Some err)
      | (h', None) \<Rightarrow> coverageHistoryLoop deep h' covHistory rest)"

text \<open>
  The call gives the store it leaves behind and either the error it raised or the
  address of the \<open>covHistory\<close> object it returns.
\<close>

definition getGroupedCoverageHistory_st ::
  "deep_get \<Rightarrow> store \<Rightarrow> addr \<Rightarrow> store \<times> (error + addr)" where
  "getGroupedCoverageHistory_st deep h historyItems =
     (let (h1, covHistory) = alloc h (CovHistory [])
      in case readArray h1 historyItems of
           None \<Rightarrow> (h1, Inl TypeError)
         | Some elems \<Rightarrow>
             (case coverageHistoryLoop deep h1 covHistory elems of
                (h2, Some err) \<Rightarrow> (h2, Inl err)
              | (h2, None) \<Rightarrow> (h2, Inr covHistory)))"

text \<open>An input of the helpers: an array in the store, each element of which is an entry.\<close>

definition entryArray :: "store \<Rightarrow> addr \<Rightarrow> bool" where
  "entryArray h a =
     (case readArray h a of
        None \<Rightarrow> False
      | Some elems \<Rightarrow> list_all (\<lambda>x. readEntry h x \<noteq> None) elems)"

text \<open>Reading an array of entries back as the list of its entries.\<close>

definition readEntries :: "store \<Rightarrow> addr \<Rightarrow> history_item list option" where
  "readEntries h a =
     do {
       elems \<leftarrow> readArray h a;
       those (map (readEntry h) elems)
     }"

subsection \<open>The shape of a store the helpers are building in\<close>

text \<open>
  For the proofs: the kind of a cell; an address that was allocated after the store \<open>h0\<close>
  of the call (at or beyond its length \<open>n\<close>) and holds a cell of a given kind; a cell whose
  references all go to such addresses, of the kinds its properties have; a store that
  extends \<open>h0\<close> with such cells only (\<open>grown\<close>); and, during the grouping, the
  \<open>covHistory\<close> object being one of the new cells and holding a record for a coverage id.
\<close>

datatype kind = KEntry | KArray | KCovHistory | KCovRecord | KPlanning | KAssignedTo

definition kind :: "cell \<Rightarrow> kind" where
  "kind c = (case c of Entry e \<Rightarrow> KEntry | Array xs \<Rightarrow> KArray | CovHistory kvs \<Rightarrow> KCovHistory
             | CovRecord its pl asg ws \<Rightarrow> KCovRecord | Planning p \<Rightarrow> KPlanning
             | AssignedTo x \<Rightarrow> KAssignedTo)"

definition newAt :: "nat \<Rightarrow> store \<Rightarrow> kind \<Rightarrow> addr \<Rightarrow> bool" where
  "newAt n h k a = (n \<le> a \<and> a < length h \<and> kind (h ! a) = k)"

definition cellOk :: "nat \<Rightarrow> store \<Rightarrow> cell \<Rightarrow> bool" where
  "cellOk n h c =
     (case c of
        CovHistory kvs \<Rightarrow> (\<forall>r \<in> snd ` set kvs. newAt n h KCovRecord r)
      | CovRecord its pl asg ws \<Rightarrow> newAt n h KArray its \<and> newAt n h KPlanning pl \<and> newAt n h KAssignedTo asg
      | _ \<Rightarrow> True)"

definition grown :: "store \<Rightarrow> store \<Rightarrow> bool" where
  "grown h0 h =
     (take (length h0) h = h0 \<and> length h0 \<le> length h
      \<and> (\<forall>a. length h0 \<le> a \<and> a < length h \<longrightarrow> cellOk (length h0) h (h ! a)))"

definition hasRecord :: "store \<Rightarrow> addr \<Rightarrow> string \<Rightarrow> bool" where
  "hasRecord h cov cid = (\<exists>kvs r. h ! cov = CovHistory kvs \<and> map_of kvs cid = Some r)"

definition building :: "store \<Rightarrow> store \<Rightarrow> addr \<Rightarrow> bool" where
  "building h0 h cov = (grown h0 h \<and> newAt (length h0) h KCovHistory cov)"

subsection \<open>An example store\<close>

definition exampleStore :: store where
  "exampleStore = [Entry entryDesk, Entry entryEmptyId, Array [0, 1]]"

text \<open>A store whose input array holds an entry of the coverage id \<open>constructor\<close>.\<close>

definition inheritedNameStore :: store where
  "inheritedNameStore = [Entry entryDesk, Entry entryConstructor, Array [0, 1]]"

subsection \<open>Stores that read back as a grouping\<close>

text \<open>
  For the proofs: the address of the \<open>planning\<close> object of a record; a \<open>covHistory\<close> object
  whose records, and whose records' \<open>planning\<close> objects, are pairwise distinct objects;
  and a store that is being built in, keeps its records apart and reads back as a given
  grouping.
\<close>

definition plOf :: "store \<Rightarrow> addr \<Rightarrow> addr" where
  "plOf h r = (case h ! r of CovRecord its pl asg ws \<Rightarrow> pl | _ \<Rightarrow> 0)"

definition separate :: "store \<Rightarrow> addr \<Rightarrow> bool" where
  "separate h cov =
     (case h ! cov of
        CovHistory kvs \<Rightarrow>
          distinct (map fst kvs) \<and> distinct (map snd kvs) \<and> distinct (map (\<lambda>(k, r). plOf h r) kvs)
      | _ \<Rightarrow> False)"

definition refines :: "store \<Rightarrow> store \<Rightarrow> addr \<Rightarrow> (string \<times> coverage_history) list \<Rightarrow> bool" where
  "refines h0 h cov G = (building h0 h cov \<and> separate h cov \<and> groupingOf h cov = G)"

section \<open>Coverage assignment modal\<close>

text \<open>
  \<open>EditCoverageAssignmentModalComponent\<close> edits a draft (\<open>diff\<close>) of an assignment. The
  draft and the value it was made from are objects in a store of their own kind: a cell
  holds one object as a tree of properties, and the prop \<open>modalProps.value\<close> and the state's
  \<open>diff\<close> are addresses. \<open>cloneDeep\<close> makes a new object with the same tree; lodash \<open>set\<close>
  writes into the object it is given.
\<close>

datatype jsvalue =
    JNull
  | JBool bool
  | JNum int
  | JStr string
  | JObj "(string \<times> jsvalue) list"

text \<open>
  An object is the association list of its own properties; reads and writes go by key,
  and the order of the list plays no role. Arrays and functions are not values of this
  model: it covers drafts that are trees of plain objects and primitive values.
\<close>

text \<open>
  lodash \<open>set(object, path, value)\<close> (\<open>baseSet\<close> of lodash 4.17.19 and later), the path being
  the list of keys lodash parses the field name into. Nothing happens to a value that is
  not an object or along an empty path. The loop over the keys stops, leaving what it has
  written so far, at a key \<open>__proto__\<close>, \<open>constructor\<close> or \<open>prototype\<close>. Before the last
  key, the loop steps into \<open>nested[key]\<close> when that is an object and replaces it
  otherwise, by a new array when the next key is an array index and by a new object when
  it is not.
\<close>

definition unsafeKeys :: "string list" where
  "unsafeKeys = [''__proto__'', ''constructor'', ''prototype'']"

text \<open>
  \<open>isIndex\<close>: the key is a decimal numeral without a leading zero, below
  \<open>Number.MAX_SAFE_INTEGER\<close>.
\<close>

definition decimal :: "string \<Rightarrow> nat" where
  "decimal k = foldl (\<lambda>n c. 10 * n + (of_char c - 48)) 0 k"

definition isIndex :: "string \<Rightarrow> bool" where
  "isIndex k =
     (k \<noteq> [] \<and> list_all (\<lambda>c. c \<in> set ''0123456789'') k
      \<and> (k = ''0'' \<or> hd k \<noteq> CHR ''0'')
      \<and> decimal k < 9007199254740991)"

text \<open>
  The value the loop steps into at key \<open>k\<close> when the next key is \<open>k'\<close>. \<open>nested[k]\<close> is
  the own property \<open>k\<close> or, when there is none, what the object inherits from
  \<open>Object.prototype\<close> under that name, a built-in function. The result is \<open>None\<close> when the
  loop steps into something that is not a tree of this model: an inherited function, or
  a new array.
\<close>

definition nextValue :: "(string \<times> jsvalue) list \<Rightarrow> string \<Rightarrow> string \<Rightarrow> jsvalue option" where
  "nextValue kvs k k' =
     (case map_of kvs k of
        Some (JObj sub) \<Rightarrow> Some (JObj sub)
      | Some c \<Rightarrow> (if isIndex k' then None else Some (JObj []))
      | None \<Rightarrow> (if k \<in> set objectPrototypeNames \<or> isIndex k' then None else Some (JObj [])))"

text \<open>
  \<open>set\<close> itself. What ends up under key \<open>k\<close> when the loop has stepped into an inherited
  function or a new array there is the parameter \<open>beyond\<close>, applied to the key, the rest
  of the path and the value.
\<close>

fun setPath ::
  "(string \<Rightarrow> string list \<Rightarrow> jsvalue \<Rightarrow> jsvalue) \<Rightarrow> jsvalue \<Rightarrow> string list \<Rightarrow> jsvalue
     \<Rightarrow> jsvalue" where
  "setPath beyond d [] v = d"
| "setPath beyond d (k # ks) v =
     (case d of
        JObj kvs \<Rightarrow>
          if k \<in> set unsafeKeys then d
          else if ks = [] then JObj (AList.update k v kvs)
          else (case nextValue kvs k (hd ks) of
                  None \<Rightarrow> JObj (AList.update k (beyond k ks v) kvs)
                | Some sub \<Rightarrow> JObj (AList.update k (setPath beyond sub ks v) kvs))
      | _ \<Rightarrow> d)"

text \<open>Reading the own properties along a path; \<open>None\<close> is \<open>undefined\<close>.\<close>

fun getPath :: "jsvalue \<Rightarrow> string list \<Rightarrow> jsvalue option" where
  "getPath d [] = Some d"
| "getPath d (k # ks) =
     (case d of
        JObj kvs \<Rightarrow> (case map_of kvs k of None \<Rightarrow> None | Some c \<Rightarrow> getPath c ks)
      | _ \<Rightarrow> None)"

text \<open>
  An ordinary property name: not an array index, not a name inherited from
  \<open>Object.prototype\<close>, and not one of the keys \<open>set\<close> refuses.
\<close>

definition plainName :: "string \<Rightarrow> bool" where
  "plainName k = (k \<notin> set objectPrototypeNames \<and> k \<notin> set unsafeKeys \<and> \<not> isIndex k)"

type_synonym objstore = "jsvalue list"

definition cloneDeep :: "objstore \<Rightarrow> addr \<Rightarrow> (objstore \<times> addr) option" where
  "cloneDeep h a =
     do {
       d \<leftarrow> readCell h a;
       Some (alloc h d)
     }"

record assignment_state =
  submitting :: bool
  diff :: addr
  valid :: bool

text \<open>The calls the component makes on the props it was given.\<close>

datatype assignment_effect =
    PropsOnChange "string option" addr
  | SetCoverageDefaultDesk addr
  | HandleHide

text \<open>The constructor: \<open>diff: cloneDeep(props.modalProps.value) ?? {}\<close>.\<close>

definition assignmentModal :: "objstore \<Rightarrow> addr option \<Rightarrow> (objstore \<times> assignment_state) option" where
  "assignmentModal h modalValue =
     do {
       (h1, d) \<leftarrow> (case modalValue of
                     None \<Rightarrow> Some (alloc h (JObj []))
                   | Some a \<Rightarrow> cloneDeep h a);
       Some (h1, \<lparr>submitting = False, diff = d, valid = True\<rparr>)
     }"

text \<open>The handlers: the store and the state they leave, and the calls on the props.\<close>

definition assignmentOnChange ::
  "(string \<Rightarrow> string list \<Rightarrow> jsvalue \<Rightarrow> jsvalue) \<Rightarrow> objstore \<Rightarrow> assignment_state
     \<Rightarrow> string list \<Rightarrow> jsvalue
     \<Rightarrow> (objstore \<times> assignment_state \<times> assignment_effect list) option" where
  "assignmentOnChange beyond h st field v =
     do {
       (h1, diffCopy) \<leftarrow> cloneDeep h (diff st);
       d \<leftarrow> readCell h1 diffCopy;
       let h2 = writeCell h1 diffCopy (setPath beyond d field v);
       Some (h2, st\<lparr>diff := diffCopy\<rparr>, [])
     }"

definition assignmentOnSubmit ::
  "objstore \<Rightarrow> assignment_state \<Rightarrow> string option
     \<Rightarrow> objstore \<times> assignment_state \<times> assignment_effect list" where
  "assignmentOnSubmit h st modalField =
     (h, st\<lparr>submitting := True\<rparr>,
      [PropsOnChange modalField (diff st), SetCoverageDefaultDesk (diff st), HandleHide])"

definition setValid ::
  "objstore \<Rightarrow> assignment_state \<Rightarrow> bool
     \<Rightarrow> objstore \<times> assignment_state \<times> assignment_effect list" where
  "setValid h st v = (h, st\<lparr>valid := v\<rparr>, [])"

text \<open>The modal after its construction and a sequence of field changes.\<close>

fun assignmentChanges ::
  "(string \<Rightarrow> string list \<Rightarrow> jsvalue \<Rightarrow> jsvalue) \<Rightarrow> objstore \<Rightarrow> assignment_state
     \<Rightarrow> (string list \<times> jsvalue) list
     \<Rightarrow> (objstore \<times> assignment_state \<times> assignment_effect list) option" where
  "assignmentChanges beyond h st [] = Some (h, st, [])"
| "assignmentChanges beyond h st ((field, v) # rest) =
     do {
       (h1, st1, effs1) \<leftarrow> assignmentOnChange beyond h st field v;
       (h2, st2, effs2) \<leftarrow> assignmentChanges beyond h1 st1 rest;
       Some (h2, st2, effs1 @ effs2)
     }"

definition assignmentEdit ::
  "(string \<Rightarrow> string list \<Rightarrow> jsvalue \<Rightarrow> jsvalue) \<Rightarrow> objstore \<Rightarrow> addr option
     \<Rightarrow> (string list \<times> jsvalue) list
     \<Rightarrow> (objstore \<times> assignment_state \<times> assignment_effect list) option" where
  "assignmentEdit beyond h modalValue changes =
     do {
       (h1, st) \<leftarrow> assignmentModal h modalValue;
       assignmentChanges beyond h1 st changes
     }"

subsection \<open>An example draft\<close>

definition exampleAssignment :: jsvalue where
  "exampleAssignment =
     JObj [(''desk'', JStr ''sports''),
           (''coverage_provider'', JObj [(''qcode'', JStr ''stringer'')])]"

section \<open>Properties of the history aggregator\<close>

lemma getPlanningItemHistory_acc:
  "foldl planningHistoryStep acc es =
     acc @ filter (\<lambda>e. \<not> truthy (get_coverage_id e)) es"
  by (induction es arbitrary: acc) (simp_all add: planningHistoryStep_def)

lemma getPlanningItemHistory_filter:
  "getPlanningItemHistory es = filter (\<lambda>e. \<not> truthy (get_coverage_id e)) es"
  by (simp add: getPlanningItemHistory_def getPlanningItemHistory_acc)

lemma items_writeCoverage: "items (writeCoverage item r) = items r @ [item]"
  by (simp add: writeCoverage_def Let_def split: option.splits)





lemma map_of_groupStep:
  "map_of (groupStep h e) cid =
     (if hasCoverageId cid e
      then Some (writeCoverage e (case map_of h cid of None \<Rightarrow> newCoverageHistory | Some r \<Rightarrow> r))
      else map_of h cid)"
  by (cases "get_coverage_id e")
     (auto simp: groupStep_def Let_def update_conv' truthy_def hasCoverageId_def)

lemma coverageEntries_snoc:
  "coverageEntries cid (es @ [e]) =
      (if hasCoverageId cid e then coverageEntries cid es @ [e] else coverageEntries cid es)"
  by (simp add: coverageEntries_def)

lemma aggregate_snoc: "aggregate r (es @ [e]) = writeCoverage e (aggregate r es)"
  by (simp add: aggregate_def)

lemma map_of_grouped:
  "map_of (grouping es) cid =
     (if coverageEntries cid es = [] then None
      else Some (aggregate newCoverageHistory (coverageEntries cid es)))"
proof (induction es rule: rev_induct)
  case Nil
  then show ?case by (simp add: coverageEntries_def grouping_def)
next
  case (snoc e es)
  have "grouping (es @ [e]) =
          groupStep (grouping es) e"
    by (simp add: grouping_def)
  then show ?case
    by (simp add: map_of_groupStep coverageEntries_snoc snoc.IH aggregate_snoc)
       (simp add: aggregate_def)
qed

lemma lastSet_snoc:
  "lastSet f (es @ [e]) = (if truthy (f e) then f e else lastSet f es)"
  by (simp add: lastSet_def Let_def)

lemma writeCoverage_g2:
  "cov_g2_content_type (planning (writeCoverage e r)) =
     (if truthy (get_g2_content_type e) then get_g2_content_type e
      else cov_g2_content_type (planning r))"
  by (simp add: writeCoverage_def Let_def split: option.splits)

lemma writeCoverage_scheduled:
  "cov_scheduled (planning (writeCoverage e r)) =
     (if truthy (get_scheduled e) then map_option Moment (get_scheduled e)
      else cov_scheduled (planning r))"
  by (simp add: writeCoverage_def Let_def split: option.splits)

lemma writeCoverage_workflow_status:
  "workflow_status (writeCoverage e r) =
     (if truthy (get_workflow_status e) then get_workflow_status e else workflow_status r)"
  by (simp add: writeCoverage_def Let_def split: option.splits)

lemma writeCoverage_assigned_to:
  "assigned_to (writeCoverage e r) =
     (case get_assigned_to e of Some a \<Rightarrow> spread (assigned_to r) a | None \<Rightarrow> assigned_to r)"
  by (simp add: writeCoverage_def Let_def split: option.splits)

lemma aggregate_g2:
  "cov_g2_content_type (planning (aggregate newCoverageHistory es)) =
     lastSet get_g2_content_type es"
  by (induction es rule: rev_induct)
     (simp_all add: aggregate_snoc lastSet_snoc writeCoverage_g2,
      simp add: aggregate_def lastSet_def newCoverageHistory_def)

lemma aggregate_scheduled:
  "cov_scheduled (planning (aggregate newCoverageHistory es)) =
     map_option Moment (lastSet get_scheduled es)"
  by (induction es rule: rev_induct)
     (simp_all add: aggregate_snoc lastSet_snoc writeCoverage_scheduled,
      simp add: aggregate_def lastSet_def newCoverageHistory_def)

lemma aggregate_workflow_status:
  "workflow_status (aggregate newCoverageHistory es) = lastSet get_workflow_status es"
  by (induction es rule: rev_induct)
     (simp_all add: aggregate_snoc lastSet_snoc writeCoverage_workflow_status,
      simp add: aggregate_def lastSet_def newCoverageHistory_def)

lemma mergedAssignedTo_snoc:
  "mergedAssignedTo (es @ [e]) =
     (case get_assigned_to e of Some a \<Rightarrow> spread (mergedAssignedTo es) a
      | None \<Rightarrow> mergedAssignedTo es)"
  by (simp add: mergedAssignedTo_def List.map_filter_def split: option.splits)

lemma aggregate_assigned_to:
  "assigned_to (aggregate newCoverageHistory es) = mergedAssignedTo es"
  by (induction es rule: rev_induct)
     (simp_all add: aggregate_snoc mergedAssignedTo_snoc writeCoverage_assigned_to
        aggregate_def mergedAssignedTo_def newCoverageHistory_def List.map_filter_def
        split: option.splits)

lemma aggregate_items: "items (aggregate newCoverageHistory es) = es"
  by (induction es rule: rev_induct)
     (simp_all add: aggregate_snoc items_writeCoverage,
      simp add: aggregate_def newCoverageHistory_def)


lemma distinct_groupStep:
  "distinct (map fst h) \<Longrightarrow> distinct (map fst (groupStep h e))"
  by (simp add: groupStep_def Let_def distinct_update)

lemma distinct_grouped: "distinct (map fst (grouping es))"
proof -
  have "distinct (map fst h) \<Longrightarrow> distinct (map fst (foldl groupStep h es))" for h
    by (induction es arbitrary: h) (simp_all add: distinct_groupStep)
  then show ?thesis by (simp add: grouping_def)
qed

lemma grouped_member:
  assumes "(cid, r) \<in> set (grouping es)"
  shows "r = aggregate newCoverageHistory (coverageEntries cid es)"
proof -
  from assms have "map_of (grouping es) cid = Some r"
    by (simp add: distinct_grouped)
  then show ?thesis by (simp add: map_of_grouped split: if_splits)
qed


text \<open>
  A step of \<open>getGroupedCoverageHistory\<close> raises when the test of line 25 finds something
  for an id that is not an own key, and is a step of the grouping by own key otherwise.
\<close>

lemma coverageHistoryStep_cases:
  "coverageHistoryStep deep h e =
     (if truthy (get_coverage_id e)
         \<and> get_truthy deep h (the (get_coverage_id e))
         \<and> map_of h (the (get_coverage_id e)) = None
      then Inl TypeError
      else Inr (groupStep h e))"
proof (cases "map_of h (the (get_coverage_id e))")
  case None
  then show ?thesis
    by (simp add: coverageHistoryStep_def groupStep_def Let_def update_conv')
next
  case (Some r)
  then have "get_truthy deep h (the (get_coverage_id e))"
    by (simp add: get_truthy_def)
  with Some show ?thesis
    by (simp add: coverageHistoryStep_def groupStep_def Let_def)
qed

lemma coverageHistoryForEach_Inr:
  "coverageHistoryForEach deep h es = Inr g \<Longrightarrow> g = foldl groupStep h es"
  by (induction es arbitrary: h) (auto simp: coverageHistoryStep_cases split: if_splits)

lemma grouped_Inr:
  "getGroupedCoverageHistory deep es = Inr g \<Longrightarrow> g = grouping es"
  by (simp add: getGroupedCoverageHistory_def grouping_def coverageHistoryForEach_Inr)

text \<open>On plain coverage ids the test of line 25 is the lookup of an own key, and the call returns.\<close>

lemma plainKey_get_truthy:
  assumes "plainKey ids cid" and "fst ` set h \<subseteq> set ids"
  shows "get_truthy deep h cid \<longleftrightarrow> map_of h cid \<noteq> None"
proof -
  have "map_of h (firstSegment cid) = None" if "firstSegment cid \<notin> set ids"
    using that assms(2) by (auto simp: map_of_eq_None_iff)
  with assms(1) show ?thesis
    by (auto simp: get_truthy_def plainKey_def split: if_splits option.splits)
qed

lemma get_truthy_plain:
  "\<not> pathLike cid \<Longrightarrow>
     get_truthy deep h cid \<longleftrightarrow> map_of h cid \<noteq> None \<or> cid \<in> set objectPrototypeNames"
  by (simp add: get_truthy_def)

lemma get_truthy_property:
  assumes "map_of h cid = None" and "cid \<notin> set objectPrototypeNames"
    and "hd cid \<noteq> CHR ''[''" and "hd cid \<noteq> CHR '']''"
    and "map_of h (firstSegment cid) = Some r"
    and "drop (length (firstSegment cid)) cid = CHR ''.'' # name"
    and "\<not> pathLike name" and "CHR '']'' \<notin> set name"
  shows "get_truthy deep h cid \<longleftrightarrow> recordPropertyTruthy r name"
proof -
  from assms(6) have "pathLike cid"
    by (metis append_take_drop_id list.set_intros(1) pathLike_def set_append UnCI)
  with assms show ?thesis
    by (simp add: get_truthy_def)
qed

lemma keys_groupStep:
  "fst ` set (groupStep h e) \<subseteq> fst ` set h \<union> set (coverageIds [e])"
proof (cases "truthy (get_coverage_id e)")
  case True
  have "fst ` set (AList.update k v h) = insert k (fst ` set h)" for k and v :: coverage_history
    using dom_update [of k v h] by (simp add: dom_map_of_conv_image_fst)
  with True show ?thesis
    by (simp add: groupStep_def Let_def coverageIds_def)
next
  case False
  then show ?thesis
    by (simp add: groupStep_def)
qed

lemma coverageIds_Cons:
  "coverageIds (e # es) = coverageIds [e] @ coverageIds es"
  by (simp add: coverageIds_def)

lemma coverageHistoryForEach_returns:
  assumes "fst ` set h \<subseteq> set ids" and "set (coverageIds es) \<subseteq> set ids"
    and "list_all (plainKey ids) (coverageIds es)"
  shows "coverageHistoryForEach deep h es = Inr (foldl groupStep h es)"
  using assms
proof (induction es arbitrary: h)
  case Nil
  then show ?case by simp
next
  case (Cons e es)
  from Cons.prems(2,3) have e: "set (coverageIds [e]) \<subseteq> set ids"
      "list_all (plainKey ids) (coverageIds [e])"
    and es: "set (coverageIds es) \<subseteq> set ids" "list_all (plainKey ids) (coverageIds es)"
    by (simp_all add: coverageIds_Cons [of e es])
  have step: "coverageHistoryStep deep h e = Inr (groupStep h e)"
  proof (cases "truthy (get_coverage_id e)")
    case True
    with e(2) have "plainKey ids (the (get_coverage_id e))"
      by (simp add: coverageIds_def)
    from plainKey_get_truthy [OF this Cons.prems(1), of deep] show ?thesis
      by (auto simp: coverageHistoryStep_cases)
  next
    case False
    then show ?thesis
      by (simp add: coverageHistoryStep_cases)
  qed
  have "fst ` set (groupStep h e) \<subseteq> set ids"
    using keys_groupStep [of h e] Cons.prems(1) e(1) by blast
  from Cons.IH [OF this es] step show ?case
    by simp
qed

lemma grouped_returns:
  assumes "plainIds es"
  shows "getGroupedCoverageHistory deep es = Inr (grouping es)"
  using coverageHistoryForEach_returns [of "[]" "coverageIds es" es deep] assms
  by (simp add: plainIds_def getGroupedCoverageHistory_def grouping_def)

text \<open>
  The call raises on a coverage id that is a name every object inherits, and on a
  coverage id that is a path into the record of a coverage grouped before.
\<close>

lemma grouped_raises_on_inherited_name:
  "getGroupedCoverageHistory deep [entryConstructor] = Inl TypeError"
proof -
  have "get_coverage_id entryConstructor = Some ''constructor''"
    by (simp add: get_coverage_id_def entryConstructor_def)
  moreover have "get_truthy deep [] ''constructor''"
    by (simp add: get_truthy_plain pathLike_def objectPrototypeNames_def)
  ultimately show ?thesis
    by (simp add: getGroupedCoverageHistory_def coverageHistoryStep_cases truthy_def)
qed

lemma grouped_raises_on_path_into_record:
  "getGroupedCoverageHistory deep [entryDesk, entryPath] = Inl TypeError"
proof -
  have c: "get_coverage_id entryDesk = Some ''c1''" "get_coverage_id entryPath = Some ''c1.items''"
    by (simp_all add: get_coverage_id_def entryDesk_def entryPath_def)
  have 1: "\<not> get_truthy deep [] ''c1''"
    by (simp add: get_truthy_plain pathLike_def objectPrototypeNames_def)
  obtain r where g: "groupStep [] entryDesk = [(''c1'', r)]"
    by (simp add: groupStep_def c truthy_def)
  have "get_truthy deep [(''c1'', r)] ''c1.items'' \<longleftrightarrow> recordPropertyTruthy r ''items''"
    by (rule get_truthy_property)
       (simp_all add: objectPrototypeNames_def firstSegment_def pathLike_def)
  then have 2: "get_truthy deep [(''c1'', r)] ''c1.items''"
    by (simp add: recordPropertyTruthy_def)
  from 1 2 g show ?thesis
    by (simp add: getGroupedCoverageHistory_def coverageHistoryStep_cases c truthy_def)
qed

lemma example_plainIds:
  "plainIds [entryDesk, entryUser]" "plainIds [entryDesk, entryEmptyId, entryUser]"
  "plainIds [entryDesk, entryEmptyId]"
proof -
  have c: "get_coverage_id entryDesk = Some ''c1''" "get_coverage_id entryEmptyId = Some []"
      "get_coverage_id entryUser = Some ''c1''"
    by (simp_all add: get_coverage_id_def entryDesk_def entryEmptyId_def entryUser_def)
  show "plainIds [entryDesk, entryUser]" "plainIds [entryDesk, entryEmptyId, entryUser]"
    "plainIds [entryDesk, entryEmptyId]"
    by (simp_all add: plainIds_def plainKey_def coverageIds_def c truthy_def
        objectPrototypeNames_def pathLike_def)
qed

lemma example_grouping:
  "getGroupedCoverageHistory deep [entryDesk, entryUser] =
     Inr [(''c1'', \<lparr>items = [entryDesk, entryUser],
               planning = \<lparr>cov_g2_content_type = Some ''text'',
                            cov_scheduled = Some (Moment ''2019-01-01'')\<rparr>,
               assigned_to = [(''desk'', ''d1''), (''user'', ''u1'')],
               workflow_status = Some ''active''\<rparr>)]"
proof -
  have "grouping [entryDesk, entryUser] =
     [(''c1'', \<lparr>items = [entryDesk, entryUser],
               planning = \<lparr>cov_g2_content_type = Some ''text'',
                            cov_scheduled = Some (Moment ''2019-01-01'')\<rparr>,
               assigned_to = [(''desk'', ''d1''), (''user'', ''u1'')],
               workflow_status = Some ''active''\<rparr>)]"
    by (simp add: grouping_def groupStep_def entryDesk_def entryUser_def
        get_coverage_id_def truthy_def writeCoverage_def Let_def newCoverageHistory_def
        get_g2_content_type_def get_scheduled_def get_assigned_to_def get_workflow_status_def
        spread_def)
  with grouped_returns [OF example_plainIds(1), of deep] show ?thesis
    by simp
qed

text \<open>
  C1, as stated, fails: \<open>assigned_to\<close> is not overwritten by the latest entry. Two entries
  of coverage \<open>c1\<close> set \<open>assigned_to\<close> to \<open>{desk: d1}\<close> and then to \<open>{user: u1}\<close>; the record
  holds \<open>{desk: d1, user: u1}\<close>, the value of the last entry is \<open>{user: u1}\<close>.
\<close>

theorem grouped_assigned_to_not_latest:
  "getGroupedCoverageHistory (\<lambda>covHistory cid. True) [entryDesk, entryUser] =
     Inr [(''c1'', \<lparr>items = [entryDesk, entryUser],
               planning = \<lparr>cov_g2_content_type = Some ''text'',
                            cov_scheduled = Some (Moment ''2019-01-01'')\<rparr>,
               assigned_to = [(''desk'', ''d1''), (''user'', ''u1'')],
               workflow_status = Some ''active''\<rparr>)]
   \<and> lastAssignedTo (coverageEntries ''c1'' [entryDesk, entryUser]) = [(''user'', ''u1'')]
   \<and> \<not> latestWins [entryDesk, entryUser] ''c1''
         \<lparr>items = [entryDesk, entryUser],
          planning = \<lparr>cov_g2_content_type = Some ''text'',
                       cov_scheduled = Some (Moment ''2019-01-01'')\<rparr>,
          assigned_to = [(''desk'', ''d1''), (''user'', ''u1'')],
          workflow_status = Some ''active''\<rparr>"
proof -
  have l: "lastAssignedTo (coverageEntries ''c1'' [entryDesk, entryUser]) = [(''user'', ''u1'')]"
    by (simp add: lastAssignedTo_def coverageEntries_def hasCoverageId_def entryDesk_def
        entryUser_def get_coverage_id_def get_assigned_to_def truthy_def)
  show ?thesis
    by (simp add: example_grouping l latestWins_def)
qed

text \<open>
  C1, amended: for every entry list on which \<open>getGroupedCoverageHistory\<close> returns and every
  coverage id that has a record in the result, the record's \<open>items\<close> are the entries of
  that coverage in input order; \<open>planning.g2_content_type\<close> and \<open>workflow_status\<close> are the
  value of the last of them that set the field to a truthy value, \<open>planning.scheduled\<close> is
  \<open>moment\<close> of that value, and each is absent when no entry set it; \<open>assigned_to\<close> is the
  key-wise merge of the \<open>assigned_to\<close> objects of all of them in input order, a later entry
  winning key by key.
\<close>

theorem grouped_latest_values:
  assumes "getGroupedCoverageHistory deep es = Inr covHistory"
    and "map_of covHistory cid = Some r"
  shows "items r = coverageEntries cid es
       \<and> cov_g2_content_type (planning r) = lastSet get_g2_content_type (coverageEntries cid es)
       \<and> cov_scheduled (planning r) = map_option Moment (lastSet get_scheduled (coverageEntries cid es))
       \<and> workflow_status r = lastSet get_workflow_status (coverageEntries cid es)
       \<and> assigned_to r = mergedAssignedTo (coverageEntries cid es)"
proof -
  from assms have r: "r = aggregate newCoverageHistory (coverageEntries cid es)"
    by (simp add: grouped_Inr [OF assms(1)] map_of_grouped split: if_splits)
  show ?thesis
    unfolding r
    by (simp add: aggregate_items aggregate_g2 aggregate_scheduled
        aggregate_workflow_status aggregate_assigned_to)
qed

theorem grouped_latest_values_witness:
  "getGroupedCoverageHistory (\<lambda>covHistory cid. True) [entryDesk, entryEmptyId, entryUser] =
     Inr [(''c1'', \<lparr>items = [entryDesk, entryUser],
               planning = \<lparr>cov_g2_content_type = Some ''text'',
                            cov_scheduled = Some (Moment ''2019-01-01'')\<rparr>,
               assigned_to = [(''desk'', ''d1''), (''user'', ''u1'')],
               workflow_status = Some ''active''\<rparr>)]
   \<and> coverageEntries ''c1'' [entryDesk, entryEmptyId, entryUser] = [entryDesk, entryUser]
   \<and> lastSet get_g2_content_type (coverageEntries ''c1'' [entryDesk, entryEmptyId, entryUser])
       = Some ''text''
   \<and> map_option Moment (lastSet get_scheduled (coverageEntries ''c1'' [entryDesk, entryEmptyId, entryUser]))
       = Some (Moment ''2019-01-01'')
   \<and> lastSet get_workflow_status (coverageEntries ''c1'' [entryDesk, entryEmptyId, entryUser])
       = Some ''active''
   \<and> mergedAssignedTo (coverageEntries ''c1'' [entryDesk, entryEmptyId, entryUser])
       = [(''desk'', ''d1''), (''user'', ''u1'')]"
proof -
  let ?r = "\<lparr>items = [entryDesk, entryUser],
               planning = \<lparr>cov_g2_content_type = Some ''text'',
                            cov_scheduled = Some (Moment ''2019-01-01'')\<rparr>,
               assigned_to = [(''desk'', ''d1''), (''user'', ''u1'')],
               workflow_status = Some ''active''\<rparr>"
  have "grouping [entryDesk, entryEmptyId, entryUser] = [(''c1'', ?r)]"
    by (simp add: grouping_def groupStep_def entryDesk_def
        entryUser_def entryEmptyId_def get_coverage_id_def truthy_def writeCoverage_def Let_def
        newCoverageHistory_def get_g2_content_type_def get_scheduled_def get_assigned_to_def
        get_workflow_status_def spread_def)
  with grouped_returns [OF example_plainIds(2), of "\<lambda>covHistory cid. True"]
  have g: "getGroupedCoverageHistory (\<lambda>covHistory cid. True) [entryDesk, entryEmptyId, entryUser] =
     Inr [(''c1'', ?r)]"
    by simp
  have m: "map_of [(''c1'', ?r)] ''c1'' = Some ?r"
    by simp
  from grouped_latest_values [OF g m] g show ?thesis
    by simp
qed



text \<open>
  C9: classification is by the truthiness of \<open>update.coverage_id\<close>. An entry whose
  \<open>update.coverage_id\<close> is falsy, be it absent or present and empty, is planning-item
  history: \<open>getPlanningItemHistory\<close> returns it and no group of a grouping that
  \<open>getGroupedCoverageHistory\<close> returns holds it. An entry whose \<open>update.coverage_id\<close> is
  truthy is coverage history: \<open>getPlanningItemHistory\<close> does not return it, and in a
  grouping that \<open>getGroupedCoverageHistory\<close> returns the group of its coverage id holds
  it and no other group does. On plain coverage ids \<open>getGroupedCoverageHistory\<close> returns.
\<close>

theorem falsy_coverage_id_is_planning_history:
  assumes "e \<in> set es"
  shows "(\<not> truthy (get_coverage_id e) \<longrightarrow>
            e \<in> set (getPlanningItemHistory es)
          \<and> (\<forall>covHistory. getGroupedCoverageHistory deep es = Inr covHistory \<longrightarrow>
               (\<forall>(cid, r) \<in> set covHistory. e \<notin> set (items r))))
       \<and> (truthy (get_coverage_id e) \<longrightarrow>
            e \<notin> set (getPlanningItemHistory es)
          \<and> (\<forall>covHistory. getGroupedCoverageHistory deep es = Inr covHistory \<longrightarrow>
               (\<exists>r. map_of covHistory (the (get_coverage_id e)) = Some r \<and> e \<in> set (items r))
             \<and> (\<forall>(cid, r) \<in> set covHistory.
                   e \<in> set (items r) \<longrightarrow> cid = the (get_coverage_id e))))
       \<and> (plainIds es \<longrightarrow> (\<exists>covHistory. getGroupedCoverageHistory deep es = Inr covHistory))"
proof -
  have held: "hasCoverageId cid e"
    if "getGroupedCoverageHistory deep es = Inr covHistory" "(cid, r) \<in> set covHistory"
      "e \<in> set (items r)" for covHistory cid r
  proof -
    from that(1) have "covHistory = grouping es"
      by (rule grouped_Inr)
    with that(2) have "r = aggregate newCoverageHistory (coverageEntries cid es)"
      by (simp add: grouped_member)
    with that(3) show ?thesis
      by (simp add: aggregate_items coverageEntries_def)
  qed
  have falsy: "e \<in> set (getPlanningItemHistory es)
          \<and> (\<forall>covHistory. getGroupedCoverageHistory deep es = Inr covHistory \<longrightarrow>
               (\<forall>(cid, r) \<in> set covHistory. e \<notin> set (items r)))"
    if f: "\<not> truthy (get_coverage_id e)"
  proof -
    have "e \<in> set (getPlanningItemHistory es)"
      using assms f by (simp add: getPlanningItemHistory_filter)
    moreover have "e \<notin> set (items r)"
      if "getGroupedCoverageHistory deep es = Inr covHistory" "(cid, r) \<in> set covHistory"
      for covHistory cid r
      using held [OF that] f by (auto simp: hasCoverageId_def)
    ultimately show ?thesis
      by blast
  qed
  have truthy: "e \<notin> set (getPlanningItemHistory es)
          \<and> (\<forall>covHistory. getGroupedCoverageHistory deep es = Inr covHistory \<longrightarrow>
               (\<exists>r. map_of covHistory (the (get_coverage_id e)) = Some r \<and> e \<in> set (items r))
             \<and> (\<forall>(cid, r) \<in> set covHistory.
                   e \<in> set (items r) \<longrightarrow> cid = the (get_coverage_id e)))"
    if t: "truthy (get_coverage_id e)"
  proof -
    let ?cid = "the (get_coverage_id e)"
    from t have c: "hasCoverageId ?cid e"
      by (auto simp: hasCoverageId_def truthy_def split: option.splits)
    with assms have m: "e \<in> set (coverageEntries ?cid es)"
      by (simp add: coverageEntries_def)
    have "e \<notin> set (getPlanningItemHistory es)"
      using t by (simp add: getPlanningItemHistory_filter)
    moreover have "\<exists>r. map_of covHistory ?cid = Some r \<and> e \<in> set (items r)"
      if "getGroupedCoverageHistory deep es = Inr covHistory" for covHistory
    proof -
      from that have "covHistory = grouping es"
        by (rule grouped_Inr)
      with m show ?thesis
        by (auto simp: map_of_grouped aggregate_items)
    qed
    moreover have "cid = ?cid"
      if "getGroupedCoverageHistory deep es = Inr covHistory" "(cid, r) \<in> set covHistory"
        "e \<in> set (items r)" for covHistory cid r
      using held [OF that] by (simp add: hasCoverageId_def)
    ultimately show ?thesis
      by blast
  qed
  from falsy truthy show ?thesis
    by (simp add: grouped_returns)
qed

theorem falsy_coverage_id_is_planning_history_witness:
  "get_coverage_id entryEmptyId = Some []
   \<and> get_coverage_id entryDesk = Some ''c1''
   \<and> plainIds [entryDesk, entryEmptyId]
   \<and> getPlanningItemHistory [entryDesk, entryEmptyId] = [entryEmptyId]
   \<and> getGroupedCoverageHistory (\<lambda>covHistory cid. True) [entryDesk, entryEmptyId] =
       Inr [(''c1'', \<lparr>items = [entryDesk],
               planning = \<lparr>cov_g2_content_type = Some ''text'',
                            cov_scheduled = Some (Moment ''2019-01-01'')\<rparr>,
               assigned_to = [(''desk'', ''d1'')],
               workflow_status = Some ''draft''\<rparr>)]
   \<and> entryEmptyId \<in> set (getPlanningItemHistory [entryDesk, entryEmptyId])
   \<and> entryEmptyId \<notin> set [entryDesk]
   \<and> entryDesk \<notin> set (getPlanningItemHistory [entryDesk, entryEmptyId])
   \<and> entryDesk \<in> set [entryDesk]"
proof -
  let ?es = "[entryDesk, entryEmptyId]"
  let ?r = "\<lparr>items = [entryDesk],
               planning = \<lparr>cov_g2_content_type = Some ''text'',
                            cov_scheduled = Some (Moment ''2019-01-01'')\<rparr>,
               assigned_to = [(''desk'', ''d1'')],
               workflow_status = Some ''draft''\<rparr>"
  have c: "get_coverage_id entryEmptyId = Some []" "get_coverage_id entryDesk = Some ''c1''"
    by (simp_all add: get_coverage_id_def entryEmptyId_def entryDesk_def)
  have p: "plainIds ?es"
    by (rule example_plainIds)
  have h: "getPlanningItemHistory ?es = [entryEmptyId]"
    by (simp add: getPlanningItemHistory_def planningHistoryStep_def c truthy_def)
  have "grouping ?es = [(''c1'', ?r)]"
    by (simp add: grouping_def groupStep_def get_coverage_id_def
        truthy_def writeCoverage_def
        Let_def newCoverageHistory_def entryDesk_def entryEmptyId_def get_g2_content_type_def
        get_scheduled_def get_assigned_to_def get_workflow_status_def spread_def)
  with grouped_returns [OF p, of "\<lambda>covHistory cid. True"]
  have g: "getGroupedCoverageHistory (\<lambda>covHistory cid. True) ?es = Inr [(''c1'', ?r)]"
    by simp
  have f: "\<not> truthy (get_coverage_id entryEmptyId)" and t: "truthy (get_coverage_id entryDesk)"
    by (simp_all add: c truthy_def)
  from falsy_coverage_id_is_planning_history [of entryEmptyId ?es "\<lambda>covHistory cid. True"]
       falsy_coverage_id_is_planning_history [of entryDesk ?es "\<lambda>covHistory cid. True"]
       c p h g f t
  show ?thesis
    by auto
qed

section \<open>Properties of the planning edit panel\<close>

text \<open>
  C3: with a pristine form that is not read-only, pressing Publish stores \<open>PUBLISH\<close> and
  the submit handler dispatches \<open>publish\<close> and nothing else (nothing at all when validation
  stops the submission), never \<open>saveAndPublish\<close>; once the submission has resolved, the
  stored save method is \<open>SAVE\<close> again.
\<close>

theorem publish_pristine_dispatches_publish_only:
  assumes "pristine" and "readOnly = Some False"
  shows "snd (handleSaveAndPublish pristine readOnly st plan outcome)
           = (if outcome = ValidationFailed then [] else [Publish plan])
       \<and> SaveAndPublish plan \<notin> set (snd (handleSaveAndPublish pristine readOnly st plan outcome))
       \<and> saveMethod (fst (handleSaveAndPublish pristine readOnly st plan SubmitResolved)) = SAVE
       \<and> snd (handleSaveAndPublish pristine readOnly st plan SubmitResolved) = [Publish plan]"
  using assms
  by (cases outcome) (simp_all add: handleSaveAndPublish_def handleSave_def onSubmit_def)

theorem publish_pristine_dispatches_publish_only_witness:
  "handleSaveAndPublish True (Some False) (initialPanelState\<lparr>saveMethod := SAVE_UNPUBLISH\<rparr>)
      ''plan-1'' SubmitResolved
     = (initialPanelState, [Publish ''plan-1''])"
proof -
  have "saveMethod (fst (handleSaveAndPublish True (Some False)
            (initialPanelState\<lparr>saveMethod := SAVE_UNPUBLISH\<rparr>) ''plan-1'' SubmitResolved)) = SAVE
      \<and> snd (handleSaveAndPublish True (Some False)
            (initialPanelState\<lparr>saveMethod := SAVE_UNPUBLISH\<rparr>) ''plan-1'' SubmitResolved)
          = [Publish ''plan-1'']"
    using publish_pristine_dispatches_publish_only
            [of True "Some False" "initialPanelState\<lparr>saveMethod := SAVE_UNPUBLISH\<rparr>"
                "''plan-1''" SubmitResolved]
    by simp
  then show ?thesis
    by (simp add: handleSaveAndPublish_def handleSave_def initialPanelState_def prod_eq_iff)
qed

text \<open>
  C4: the read-only state handed to the form is true whenever the session does not hold
  the lock, or the planning is spiked, or the event is spiked, whatever the caller's
  \<open>readOnly\<close>; otherwise it is the caller's \<open>readOnly\<close>.
\<close>

theorem forceReadOnly_forced:
  "(lockedInThisSession \<noteq> Some True \<or> planningSpiked \<or> eventSpiked
      \<longrightarrow> forceReadOnly readOnly lockedInThisSession eventSpiked planningSpiked = Some True)
   \<and> (lockedInThisSession = Some True \<and> \<not> planningSpiked \<and> \<not> eventSpiked
      \<longrightarrow> forceReadOnly readOnly lockedInThisSession eventSpiked planningSpiked = readOnly)"
  by (auto simp: forceReadOnly_def isTrue_def)

theorem forceReadOnly_forced_witness:
  "forceReadOnly (Some False) (Some False) False False = Some True
   \<and> forceReadOnly (Some False) None False False = Some True
   \<and> forceReadOnly (Some False) (Some True) False True = Some True
   \<and> forceReadOnly (Some False) (Some True) True False = Some True
   \<and> forceReadOnly (Some False) (Some True) False False = Some False"
  using forceReadOnly_forced [of "Some False" False False "Some False"]
        forceReadOnly_forced [of None False False "Some False"]
        forceReadOnly_forced [of "Some True" True False "Some False"]
        forceReadOnly_forced [of "Some True" False True "Some False"]
        forceReadOnly_forced [of "Some True" False False "Some False"]
  by simp

section \<open>Properties of the array-field editor\<close>

lemma filterIndex_snoc_last: "filterIndex (length xs) (xs @ [x]) = xs"
proof -
  have "filter (\<lambda>(i, v). i \<noteq> length xs) (enumerate 0 xs) = enumerate 0 xs"
    by (rule filter_True) (auto simp: in_set_enumerate_eq)
  then have "filter (\<lambda>(i, v). i \<noteq> length xs) (enumerate 0 (xs @ [x])) = enumerate 0 xs"
    by (simp add: enumerate_append_eq)
  then show ?thesis
    by (simp add: filterIndex_def)
qed

text \<open>
  C6: \<open>remove(index)\<close> opens the confirmation before anything else, and hands no list to
  \<open>onChange\<close> before the answer. Declined, it does nothing more: no \<open>onChange\<close>, no success
  notification, the list stays what it was. \<open>onAdd\<close> followed by \<open>remove\<close> of the last index,
  accepted, gives back the list before the add (so also its length) and notifies success
  after the change.
\<close>

theorem array_remove_needs_confirmation:
  "take 1 (remove_index field value index response) = [Confirm ''Remove Coverage'']
   \<and> remove_index field value index False = [Confirm ''Remove Coverage'']
   \<and> deliverAll value (remove_index field value index False) = value
   \<and> length (orEmpty (deliverAll value (onAdd field value defaultElement args)))
       = Suc (length (orEmpty value))
   \<and> remove_index field (deliverAll value (onAdd field value defaultElement args))
         (length (orEmpty (deliverAll value (onAdd field value defaultElement args))) - 1) True
       = [Confirm ''Remove Coverage'', OnChange field (orEmpty value),
          NotifySuccess ''The coverage has been removed'']
   \<and> orEmpty (deliverAll (deliverAll value (onAdd field value defaultElement args))
         (remove_index field (deliverAll value (onAdd field value defaultElement args))
            (length (orEmpty (deliverAll value (onAdd field value defaultElement args))) - 1) True))
       = orEmpty value"
proof -
  have a: "deliverAll value (onAdd field value defaultElement args) = Some (orEmpty value @
             [case defaultElement of ElementFactory f \<Rightarrow> f args | ElementValue v \<Rightarrow> v])"
    by (simp add: onAdd_def deliverAll_def deliver_def Let_def)
  show ?thesis
    unfolding a
    by (simp add: remove_index_def deliverAll_def deliver_def orEmpty_def filterIndex_snoc_last)
qed

section \<open>Properties of the related-articles search modal\<close>

lemma modalStep_pair:
  "modalStep env selectedArticles st ev =
     (componentDidUpdate st (fst (handleEvent env selectedArticles st ev)),
      snd (handleEvent env selectedArticles st ev))"
  by (simp add: modalStep_def split_def Let_def)

lemma effects_modalStep:
  "snd (modalStep env selectedArticles st ev) = snd (handleEvent env selectedArticles st ev)"
  by (simp add: modalStep_pair)

lemma repo_componentDidUpdate: "repo (componentDidUpdate prevState st) = repo st"
  by (simp add: componentDidUpdate_def)

lemma selection_componentDidUpdate:
  "currentlySelectedArticles (componentDidUpdate prevState st) = currentlySelectedArticles st"
  by (simp add: componentDidUpdate_def)

lemma flushes_handleEvent:
  "flushes (snd (handleEvent env selectedArticles st ev)) \<Longrightarrow> ev = ApplyClicked"
  by (cases ev) (auto simp: handleEvent_def flushes_def split: nullable.splits if_splits)

text \<open>
  \<open>JSON.stringify\<close> tells any two arrays of articles apart: every piece of its text ends
  where the text itself says so, be it an escaped character, a quoted string, a property,
  or an object.
\<close>

lemma hexDigit_inj: "m < 16 \<Longrightarrow> n < 16 \<Longrightarrow> hexDigit m = hexDigit n \<Longrightarrow> m = n"
  unfolding hexDigit_def
  by (subst (asm) nth_eq_iff_index_eq) simp_all

lemma low_char_eq:
  assumes "(of_char c :: nat) < 32" "(of_char c' :: nat) < 32"
    and "hexDigit (of_char c div 16) = hexDigit (of_char c' div 16)"
    and "hexDigit (of_char c mod 16) = hexDigit (of_char c' mod 16)"
  shows "c = c'"
proof -
  let ?n = "of_char c :: nat" and ?m = "of_char c' :: nat"
  from assms(1,2) have "?n div 16 < 16" "?m div 16 < 16" by simp_all
  with assms(3) have d: "?n div 16 = ?m div 16" by (rule hexDigit_inj [rotated 2])
  have "?n mod 16 < 16" "?m mod 16 < 16" by simp_all
  with assms(4) have m: "?n mod 16 = ?m mod 16" by (rule hexDigit_inj [rotated 2])
  from d m have "?n = ?m"
    by (metis div_mult_mod_eq)
  then show ?thesis
    by (metis char_of_char)
qed

lemma escapeChar_start: "escapeChar c \<noteq> [] \<and> hd (escapeChar c) \<noteq> CHR 0x22"
  by (simp add: escapeChar_def)

lemma escapeChar_form:
  "(escapeChar c = [c] \<and> c \<noteq> CHR 0x5C)
   \<or> (\<exists>x. escapeChar c = [CHR 0x5C, x] \<and> (c, x) \<in> set shortEscapes)
   \<or> (escapeChar c = [CHR 0x5C, CHR ''u'', CHR ''0'', CHR ''0'',
                        hexDigit (of_char c div 16), hexDigit (of_char c mod 16)]
       \<and> (of_char c :: nat) < 32)"
  by (simp add: escapeChar_def shortEscapes_def)

lemma shortEscapes_inj:
  "(c, x) \<in> set shortEscapes \<Longrightarrow> (c', x) \<in> set shortEscapes \<Longrightarrow> c = c'"
  by (auto simp: shortEscapes_def)

lemma shortEscapes_not_u: "(c, x) \<in> set shortEscapes \<Longrightarrow> x \<noteq> CHR ''u''"
  by (auto simp: shortEscapes_def)

lemma escapeChar_delimited:
  assumes "escapeChar c @ r = escapeChar c' @ r'"
  shows "c = c' \<and> r = r'"
  using escapeChar_form [of c] escapeChar_form [of c'] assms
  by (elim disjE exE conjE)
     (auto dest: shortEscapes_inj shortEscapes_not_u low_char_eq)

lemma body_delimited:
  "concat (map escapeChar s) @ CHR 0x22 # r = concat (map escapeChar s') @ CHR 0x22 # r'
     \<Longrightarrow> s = s' \<and> r = r'"
proof (induction s arbitrary: s')
  case Nil
  show ?case
  proof (cases s')
    case Nil
    with Nil.prems show ?thesis by simp
  next
    case (Cons c cs)
    with Nil.prems escapeChar_start [of c] show ?thesis
      by (cases "escapeChar c") auto
  qed
next
  case (Cons c cs)
  show ?case
  proof (cases s')
    case Nil
    with Cons.prems escapeChar_start [of c] show ?thesis
      by (cases "escapeChar c") auto
  next
    case (Cons c' cs')
    with Cons.prems have "escapeChar c @ (concat (map escapeChar cs) @ CHR 0x22 # r)
                        = escapeChar c' @ (concat (map escapeChar cs') @ CHR 0x22 # r')"
      by simp
    from escapeChar_delimited [OF this] Cons.IH [of cs'] Cons show ?thesis
      by simp
  qed
qed

lemma quote_delimited: "quote s @ r = quote s' @ r' \<Longrightarrow> s = s' \<and> r = r'"
  using body_delimited [of s r s' r'] by (simp add: quote_def)

lemma stringifyValue_delimited:
  "stringifyValue v @ r = stringifyValue v' @ r' \<Longrightarrow> v = v' \<and> r = r'"
proof (cases v; cases v')
  fix s s'
  assume "stringifyValue v @ r = stringifyValue v' @ r'" "v = Some s" "v' = Some s'"
  then show "v = v' \<and> r = r'"
    using quote_delimited [of s r s' r'] by (simp add: stringifyValue_def)
qed (simp_all add: stringifyValue_def quote_def)

lemma stringifyProperty_delimited:
  assumes "stringifyProperty p @ r = stringifyProperty p' @ r'"
  shows "p = p' \<and> r = r'"
proof -
  from assms have "quote (fst p) @ (CHR '':'' # stringifyValue (snd p) @ r)
                 = quote (fst p') @ (CHR '':'' # stringifyValue (snd p') @ r')"
    by (simp add: stringifyProperty_def)
  from quote_delimited [OF this] stringifyValue_delimited [of "snd p" r "snd p'" r']
  show ?thesis
    by (auto simp: prod_eq_iff)
qed

lemma commaSep_Cons:
  "commaSep (x # xs) = x @ (if xs = [] then [] else CHR '','' # commaSep xs)"
  by (cases xs) simp_all

lemma commaSep_delimited:
  assumes delim: "\<And>x y r r'. f x @ r = f y @ r' \<Longrightarrow> x = y \<and> r = r'"
    and start: "\<And>x. f x \<noteq> [] \<and> hd (f x) \<noteq> close"
    and close: "close \<noteq> CHR '',''"
  shows "commaSep (map f xs) @ close # r = commaSep (map f ys) @ close # r'
           \<Longrightarrow> xs = ys \<and> r = r'"
proof (induction xs arbitrary: ys)
  case Nil
  show ?case
  proof (cases ys)
    case Nil
    with Nil.prems show ?thesis by simp
  next
    case (Cons y ys')
    with Nil.prems start [of y] show ?thesis
      by (cases "f y") (auto simp: commaSep_Cons)
  qed
next
  case (Cons x xs')
  show ?case
  proof (cases ys)
    case Nil
    with Cons.prems start [of x] show ?thesis
      by (cases "f x") (auto simp: commaSep_Cons)
  next
    case (Cons y ys')
    let ?X = "(if xs' = [] then [] else CHR '','' # commaSep (map f xs')) @ close # r"
    let ?Y = "(if ys' = [] then [] else CHR '','' # commaSep (map f ys')) @ close # r'"
    from Cons Cons.prems have "f x @ ?X = f y @ ?Y"
      by (simp add: commaSep_Cons)
    from delim [OF this] have xy: "x = y" and rest: "?X = ?Y"
      by simp_all
    show ?thesis
    proof (cases "xs' = []")
      case True
      with rest close have "ys' = []" "r = r'"
        by (auto split: if_splits)
      with True xy Cons show ?thesis by simp
    next
      case False
      with rest close have ne: "ys' \<noteq> []"
        by (auto split: if_splits)
      with False rest have "commaSep (map f xs') @ close # r = commaSep (map f ys') @ close # r'"
        by simp
      from Cons.IH [OF this] xy Cons show ?thesis by simp
    qed
  qed
qed

lemma stringifyArticle_delimited:
  assumes "stringifyArticle a @ r = stringifyArticle b @ r'"
  shows "a = b \<and> r = r'"
proof -
  have start: "stringifyProperty p \<noteq> [] \<and> hd (stringifyProperty p) \<noteq> CHR ''}''" for p
    by (simp add: stringifyProperty_def quote_def)
  from assms have "commaSep (map stringifyProperty a) @ CHR ''}'' # r
                 = commaSep (map stringifyProperty b) @ CHR ''}'' # r'"
    by (simp add: stringifyArticle_def)
  then show ?thesis
    by (rule commaSep_delimited [where f = stringifyProperty and close = "CHR ''}''", rotated 3])
       (auto dest: stringifyProperty_delimited simp: start)
qed

lemma stringify_inj: "stringify xs = stringify ys \<longleftrightarrow> xs = ys"
proof
  assume "stringify xs = stringify ys"
  then have "commaSep (map stringifyArticle xs) @ CHR '']'' # []
           = commaSep (map stringifyArticle ys) @ CHR '']'' # []"
    by (simp add: stringify_def)
  then have "xs = ys \<and> ([]::string) = []"
  proof (rule commaSep_delimited [where f = stringifyArticle and close = "CHR '']''", rotated 3])
    show "stringifyArticle x \<noteq> [] \<and> hd (stringifyArticle x) \<noteq> CHR '']''" for x
      by (simp add: stringifyArticle_def)
  qed (auto dest: stringifyArticle_delimited)
  then show "xs = ys" by simp
qed simp

lemma applyDisabled_iff:
  "applyDisabled selectedArticles st \<longleftrightarrow> currentlySelectedArticles st = selectedArticles"
  by (cases selectedArticles; cases "currentlySelectedArticles st")
     (auto simp: applyDisabled_def jsonStringify_def stringify_inj)

lemma sameArticle_refl: "sameArticle a a"
  by (simp add: sameArticle_def list_all_iff)

lemma structurallyIdentical_refl: "structurallyIdentical s s"
  by (cases s) (simp_all add: structurallyIdentical_def list_all2_refl sameArticle_refl)

lemma reorderedRun:
  "currentlySelectedArticles
     (modalRun exampleEnv storedSelection
        [ProvidersLoaded [archiveProvider], RemoveArticle ''a1'', AddArticle fetchedArticle])
   = Some [[(''guid'', Some ''a1''), (''headline'', Some ''Flood''),
            (''search_provider'', Some ''repo1'')]]"
  by (simp add: modalRun_def modalStep_pair handleEvent_def providersLoaded_def resolveRepo_def
      exampleEnv_def storedSelection_def archiveProvider_def initialModalState_def
      selection_componentDidUpdate repo_componentDidUpdate removeArticle_def addArticle_def
      orEmpty_def getProp_def fetchedArticle_def)

text \<open>
  C5, as stated, fails: Apply can be enabled while the pending selection is structurally
  identical to the selection passed in. The modal is opened with one selected article
  whose properties were stored in the order \<open>guid\<close>, \<open>search_provider\<close>, \<open>headline\<close>; the
  user removes it and adds it again from the search results, where it is
  \<open>{guid, headline}\<close>, and \<open>addArticle\<close> writes \<open>search_provider\<close> last. The pending
  selection holds the same article with the same properties and values, but
  \<open>JSON.stringify\<close> writes the properties in their order, the two texts differ, and Apply
  is enabled.
\<close>

theorem apply_enabled_on_reordered_properties:
  "structurallyIdentical
     (currentlySelectedArticles
        (modalRun exampleEnv storedSelection
           [ProvidersLoaded [archiveProvider], RemoveArticle ''a1'', AddArticle fetchedArticle]))
     storedSelection
   \<and> jsonStringify (currentlySelectedArticles
        (modalRun exampleEnv storedSelection
           [ProvidersLoaded [archiveProvider], RemoveArticle ''a1'', AddArticle fetchedArticle]))
       \<noteq> jsonStringify storedSelection
   \<and> \<not> applyDisabled storedSelection
        (modalRun exampleEnv storedSelection
           [ProvidersLoaded [archiveProvider], RemoveArticle ''a1'', AddArticle fetchedArticle])"
proof -
  let ?st = "modalRun exampleEnv storedSelection
           [ProvidersLoaded [archiveProvider], RemoveArticle ''a1'', AddArticle fetchedArticle]"
  have s: "structurallyIdentical (currentlySelectedArticles ?st) storedSelection"
    unfolding reorderedRun
    by (simp add: storedSelection_def structurallyIdentical_def sameArticle_def)
  have n: "jsonStringify (currentlySelectedArticles ?st) \<noteq> jsonStringify storedSelection"
    unfolding reorderedRun
    by (simp add: storedSelection_def jsonStringify_def stringify_def
        stringifyArticle_def stringifyProperty_def stringifyValue_def quote_def escapeChar_def)
  from s n show ?thesis
    by (auto simp: applyDisabled_def)
qed

text \<open>
  C5, amended: in every state of the modal, hence after every sequence of events on the
  modal opened with a selection, Apply is disabled exactly when the pending selection is
  the selection passed in, article for article and property for property in the same
  order, which is when \<open>JSON.stringify\<close> gives the same text for both; a disabled Apply
  therefore means a structurally identical selection, though not the other way round.
  An event that hands a selection to the caller's \<open>onChange\<close> is a click on Apply, and a
  click on the enabled Apply hands it the cleaned pending selection and closes the modal.
\<close>

theorem apply_disabled_iff_selection_unchanged:
  "(applyDisabled selectedArticles st \<longleftrightarrow> currentlySelectedArticles st = selectedArticles)
   \<and> (applyDisabled selectedArticles st \<longrightarrow>
         structurallyIdentical (currentlySelectedArticles st) selectedArticles)
   \<and> (flushes (snd (modalStep env selectedArticles st ev)) \<longrightarrow> ev = ApplyClicked)
   \<and> (\<not> applyDisabled selectedArticles st \<longrightarrow>
         snd (modalStep env selectedArticles st ApplyClicked)
           = [OnChangeSelection (cleanArticlesFields env (orEmpty (currentlySelectedArticles st))),
              CloseModal])"
proof (intro conjI impI)
  show "applyDisabled selectedArticles st \<longleftrightarrow> currentlySelectedArticles st = selectedArticles"
    by (rule applyDisabled_iff)
next
  assume "applyDisabled selectedArticles st"
  then show "structurallyIdentical (currentlySelectedArticles st) selectedArticles"
    by (simp add: applyDisabled_iff structurallyIdentical_refl)
next
  assume "flushes (snd (modalStep env selectedArticles st ev))"
  then show "ev = ApplyClicked"
    by (simp add: effects_modalStep flushes_handleEvent)
next
  assume "\<not> applyDisabled selectedArticles st"
  then show "snd (modalStep env selectedArticles st ApplyClicked)
           = [OnChangeSelection (cleanArticlesFields env (orEmpty (currentlySelectedArticles st))),
              CloseModal]"
    by (simp add: effects_modalStep handleEvent_def)
qed

lemma exampleRun_remove:
  "currentlySelectedArticles
     (modalRun exampleEnv exampleSelection [ProvidersLoaded [archiveProvider], RemoveArticle ''a1''])
   = Some []"
  by (simp add: modalRun_def modalStep_pair handleEvent_def providersLoaded_def resolveRepo_def
      exampleEnv_def exampleSelection_def archiveProvider_def initialModalState_def
      selection_componentDidUpdate repo_componentDidUpdate removeArticle_def orEmpty_def
      getProp_def)

theorem apply_disabled_iff_selection_unchanged_witness:
  "applyDisabled exampleSelection (modalRun exampleEnv exampleSelection [])
   \<and> structurallyIdentical
        (currentlySelectedArticles (modalRun exampleEnv exampleSelection [])) exampleSelection
   \<and> currentlySelectedArticles
        (modalRun exampleEnv exampleSelection [ProvidersLoaded [archiveProvider], RemoveArticle ''a1''])
       = Some []
   \<and> \<not> applyDisabled exampleSelection
        (modalRun exampleEnv exampleSelection [ProvidersLoaded [archiveProvider], RemoveArticle ''a1''])
   \<and> flushes (snd (modalStep exampleEnv exampleSelection
        (modalRun exampleEnv exampleSelection [ProvidersLoaded [archiveProvider], RemoveArticle ''a1''])
        ApplyClicked))
   \<and> snd (modalStep exampleEnv exampleSelection
        (modalRun exampleEnv exampleSelection [ProvidersLoaded [archiveProvider], RemoveArticle ''a1''])
        ApplyClicked) = [OnChangeSelection [], CloseModal]"
proof -
  have c0: "currentlySelectedArticles (modalRun exampleEnv exampleSelection []) = exampleSelection"
    by (simp add: modalRun_def initialModalState_def)
  have c: "cleanArticlesFields exampleEnv [] = []"
    by (simp add: exampleEnv_def)
  have n: "Some [] \<noteq> exampleSelection"
    by (simp add: exampleSelection_def)
  from apply_disabled_iff_selection_unchanged
         [of exampleSelection "modalRun exampleEnv exampleSelection []" exampleEnv ApplyClicked]
       apply_disabled_iff_selection_unchanged
         [of exampleSelection
           "modalRun exampleEnv exampleSelection [ProvidersLoaded [archiveProvider], RemoveArticle ''a1'']"
           exampleEnv ApplyClicked]
  show ?thesis
    using c0 c n by (simp add: exampleRun_remove orEmpty_def flushes_def)
qed

lemma repo_handleEvent:
  "\<not> providerFound env ev \<Longrightarrow> isNullish (repo st)
     \<Longrightarrow> isNullish (repo (fst (handleEvent env selectedArticles st ev)))"
  by (cases ev)
     (auto simp: handleEvent_def providerFound_def providersLoaded_def resolveRepo_def
        isNullish_def removeArticle_def addArticle_def split: nullable.splits option.splits)

lemma repo_modalStep:
  "\<not> providerFound env ev \<Longrightarrow> isNullish (repo st)
     \<Longrightarrow> isNullish (repo (fst (modalStep env selectedArticles st ev)))"
  using repo_handleEvent [of env ev st selectedArticles]
  by (simp add: modalStep_pair repo_componentDidUpdate)

lemma repo_foldl_modalStep:
  "\<forall>ev \<in> set evs. \<not> providerFound env ev \<Longrightarrow> isNullish (repo st)
     \<Longrightarrow> isNullish (repo (foldl (\<lambda>st ev. fst (modalStep env selectedArticles st ev)) st evs))"
  by (induction evs arbitrary: st) (simp_all add: repo_modalStep)

text \<open>
  C8: while no answer to the provider lookup names the configured provider (none is
  configured, or the answers hold no provider of that name), \<open>repo\<close> is \<open>null\<close> or
  \<open>undefined\<close> after every sequence of events, and every page load answers at once with no
  items and count 0, without a request.
\<close>

theorem unresolved_provider_gives_empty_pages:
  assumes "\<forall>ev \<in> set evs. \<not> providerFound env ev"
  shows "isNullish (repo (modalRun env selectedArticles evs))
       \<and> getItems toLowerCase (modalRun env selectedArticles evs) pageNo pageSize = Resolved [] 0"
proof -
  have "isNullish (repo (initialModalState selectedArticles))"
    by (simp add: initialModalState_def isNullish_def)
  with assms have "isNullish (repo (modalRun env selectedArticles evs))"
    unfolding modalRun_def by (rule repo_foldl_modalStep)
  then show ?thesis
    by (simp add: getItems_def isNullish_def split: nullable.splits)
qed

theorem unresolved_provider_gives_empty_pages_witness:
  "repo (modalRun exampleEnv exampleSelection
      [ProvidersLoaded [otherProvider], SearchSubmitted ''news'', AddArticle [(''guid'', Some ''a2'')]])
     = Undefined
   \<and> getItems (\<lambda>s. s) (modalRun exampleEnv exampleSelection
      [ProvidersLoaded [otherProvider], SearchSubmitted ''news'', AddArticle [(''guid'', Some ''a2'')]])
      1 20 = Resolved [] 0
   \<and> repo (modalRun (exampleEnv\<lparr>searchProviderName := None\<rparr>) exampleSelection
      [ProvidersLoaded [archiveProvider]]) = Null"
proof -
  have h: "\<forall>ev \<in> set [ProvidersLoaded [otherProvider], SearchSubmitted ''news'',
                        AddArticle [(''guid'', Some ''a2'')]]. \<not> providerFound exampleEnv ev"
    by (simp add: providerFound_def exampleEnv_def otherProvider_def)
  have r: "repo (modalRun exampleEnv exampleSelection
      [ProvidersLoaded [otherProvider], SearchSubmitted ''news'', AddArticle [(''guid'', Some ''a2'')]])
     = Undefined"
    by (simp add: modalRun_def modalStep_pair handleEvent_def providersLoaded_def resolveRepo_def
        exampleEnv_def otherProvider_def initialModalState_def repo_componentDidUpdate)
  have n: "repo (modalRun (exampleEnv\<lparr>searchProviderName := None\<rparr>) exampleSelection
      [ProvidersLoaded [archiveProvider]]) = Null"
    by (simp add: modalRun_def modalStep_pair handleEvent_def providersLoaded_def
        exampleEnv_def initialModalState_def repo_componentDidUpdate)
  from unresolved_provider_gives_empty_pages [OF h, of exampleSelection "\<lambda>s. s" 1 20] r n
  show ?thesis by simp
qed

section \<open>The helpers leave their input alone\<close>

lemma kind_simps [simp]:
  "kind (Entry e) = KEntry" "kind (Array xs) = KArray" "kind (CovHistory kvs) = KCovHistory"
  "kind (CovRecord its pl asg ws) = KCovRecord" "kind (Planning p) = KPlanning" "kind (AssignedTo x) = KAssignedTo"
  by (simp_all add: kind_def)

lemma kind_eq:
  "kind c = KEntry \<longleftrightarrow> (\<exists>e. c = Entry e)"
  "kind c = KArray \<longleftrightarrow> (\<exists>xs. c = Array xs)"
  "kind c = KCovHistory \<longleftrightarrow> (\<exists>kvs. c = CovHistory kvs)"
  "kind c = KCovRecord \<longleftrightarrow> (\<exists>its pl asg ws. c = CovRecord its pl asg ws)"
  "kind c = KPlanning \<longleftrightarrow> (\<exists>p. c = Planning p)"
  "kind c = KAssignedTo \<longleftrightarrow> (\<exists>x. c = AssignedTo x)"
  by (cases c; simp)+

lemma newAt_append: "newAt n h k a \<Longrightarrow> newAt n (h @ cs) k a"
  by (simp add: newAt_def nth_append)

lemma newAt_update:
  "newAt n h k a \<Longrightarrow> b < length h \<Longrightarrow> kind c = kind (h ! b) \<Longrightarrow> newAt n (h[b := c]) k a"
  by (cases "a = b") (simp_all add: newAt_def)

lemma cellOk_append: "cellOk n h c' \<Longrightarrow> cellOk n (h @ [c]) c'"
  by (cases c') (auto simp: cellOk_def newAt_append)

lemma cellOk_update:
  "cellOk n h c' \<Longrightarrow> b < length h \<Longrightarrow> kind c = kind (h ! b) \<Longrightarrow> cellOk n (h[b := c]) c'"
  by (cases c') (auto simp: cellOk_def newAt_update)

lemma grown_refl: "grown h h"
  by (auto simp: grown_def)

lemma grown_alloc:
  assumes "grown h0 h" and "cellOk (length h0) h c"
  shows "grown h0 (h @ [c])"
proof -
  have "cellOk (length h0) (h @ [c]) ((h @ [c]) ! a)"
    if "length h0 \<le> a" "a < length (h @ [c])" for a
  proof (cases "a < length h")
    case True
    with assms(1) that show ?thesis
      by (simp add: grown_def nth_append cellOk_append)
  next
    case False
    with that have "a = length h" by simp
    with assms(2) show ?thesis
      by (simp add: cellOk_append)
  qed
  with assms(1) show ?thesis
    by (simp add: grown_def)
qed

lemma grown_write:
  assumes "grown h0 h" and "length h0 \<le> b" and "b < length h"
    and "kind c = kind (h ! b)" and "cellOk (length h0) h c"
  shows "grown h0 (h[b := c])"
proof -
  have "cellOk (length h0) (h[b := c]) (h[b := c] ! a)"
    if "length h0 \<le> a" "a < length h" for a
  proof (cases "a = b")
    case True
    with assms show ?thesis by (simp add: cellOk_update)
  next
    case False
    with assms(1) that have "cellOk (length h0) h (h ! a)"
      by (simp add: grown_def)
    with False assms show ?thesis by (simp add: cellOk_update)
  qed
  moreover have "take (length h0) (h[b := c]) = h0"
    using assms(1,2) by (simp add: grown_def)
  ultimately show ?thesis
    using assms(1) by (simp add: grown_def)
qed

lemma grown_cellOk:
  "grown h0 h \<Longrightarrow> newAt (length h0) h k a \<Longrightarrow> cellOk (length h0) h (h ! a)"
  by (simp add: grown_def newAt_def)

lemma grown_old:
  "grown h0 h \<Longrightarrow> a < length h0 \<Longrightarrow> h ! a = h0 ! a"
  by (metis grown_def nth_take)

lemma read_newAt:
  "newAt n h KArray a \<Longrightarrow> \<exists>xs. readArray h a = Some xs \<and> h ! a = Array xs"
  "newAt n h KCovHistory a \<Longrightarrow> \<exists>kvs. readCovHistory h a = Some kvs \<and> h ! a = CovHistory kvs"
  "newAt n h KPlanning a \<Longrightarrow> \<exists>p. readPlanning h a = Some p \<and> h ! a = Planning p"
  "newAt n h KAssignedTo a \<Longrightarrow> \<exists>x. readAssignedTo h a = Some x \<and> h ! a = AssignedTo x"
  "newAt n h KCovRecord a \<Longrightarrow> \<exists>its pl asg ws. readCell h a = Some (CovRecord its pl asg ws)
       \<and> h ! a = CovRecord its pl asg ws"
  by (auto simp: newAt_def kind_eq readArray_def readCovHistory_def readPlanning_def
      readAssignedTo_def readCell_def)

lemma building_recordAt:
  assumes "building h0 h cov" and "hasRecord h cov cid"
  shows "\<exists>r its pl asg ws. recordAt h cov cid = Some (r, its, pl, asg, ws)
           \<and> newAt (length h0) h KCovRecord r \<and> h ! r = CovRecord its pl asg ws
           \<and> newAt (length h0) h KArray its \<and> newAt (length h0) h KPlanning pl \<and> newAt (length h0) h KAssignedTo asg"
proof -
  from assms(2) obtain kvs r where kvs: "h ! cov = CovHistory kvs" and r: "map_of kvs cid = Some r"
    by (auto simp: hasRecord_def)
  from assms(1) have g: "grown h0 h" and c: "newAt (length h0) h KCovHistory cov"
    by (simp_all add: building_def)
  from read_newAt(2) [OF c] kvs have rd: "readCovHistory h cov = Some kvs"
    by auto
  from grown_cellOk [OF g c] kvs have "\<forall>r \<in> snd ` set kvs. newAt (length h0) h KCovRecord r"
    by (simp add: cellOk_def)
  moreover from r have "r \<in> snd ` set kvs"
    by (force dest: map_of_SomeD)
  ultimately have nr: "newAt (length h0) h KCovRecord r" by blast
  from read_newAt(5) [OF nr] obtain its pl asg ws
    where rc: "readCell h r = Some (CovRecord its pl asg ws)" and hr: "h ! r = CovRecord its pl asg ws"
    by blast
  from grown_cellOk [OF g nr] hr
  have "newAt (length h0) h KArray its \<and> newAt (length h0) h KPlanning pl \<and> newAt (length h0) h KAssignedTo asg"
    by (simp add: cellOk_def)
  with rd r rc hr nr show ?thesis
    by (simp add: recordAt_def)
qed

lemma write_other_kind:
  "newAt n h k a \<Longrightarrow> newAt n h KCovHistory cov \<Longrightarrow> k \<noteq> KCovHistory \<Longrightarrow> kind c = k
     \<Longrightarrow> h[a := c] ! cov = h ! cov \<and> newAt n (h[a := c]) KCovHistory cov"
  by (cases "a = cov") (auto simp: newAt_def)

lemma setG2ContentType_ok:
  assumes "building h0 h cov" and "hasRecord h cov cid"
  shows "\<exists>h'. setG2ContentType h cov cid v = Some h' \<and> building h0 h' cov \<and> hasRecord h' cov cid"
proof -
  from building_recordAt [OF assms] obtain r its pl asg ws
    where ra: "recordAt h cov cid = Some (r, its, pl, asg, ws)"
      and pl: "newAt (length h0) h KPlanning pl"
    by blast
  from read_newAt(3) [OF pl] obtain p where p: "readPlanning h pl = Some p" "h ! pl = Planning p"
    by blast
  let ?c = "Planning (p\<lparr>cov_g2_content_type := v\<rparr>)"
  from assms(1) have g: "grown h0 h" and c: "newAt (length h0) h KCovHistory cov"
    by (simp_all add: building_def)
  have "grown h0 (h[pl := ?c])"
    using g pl p by (intro grown_write) (simp_all add: newAt_def cellOk_def)
  moreover from write_other_kind [OF pl c, of ?c]
  have "h[pl := ?c] ! cov = h ! cov" "newAt (length h0) (h[pl := ?c]) KCovHistory cov"
    by simp_all
  ultimately show ?thesis
    using ra p assms(2) by (simp add: setG2ContentType_def writeCell_def building_def hasRecord_def)
qed

lemma setScheduled_ok:
  assumes "building h0 h cov" and "hasRecord h cov cid"
  shows "\<exists>h'. setScheduled h cov cid v = Some h' \<and> building h0 h' cov \<and> hasRecord h' cov cid"
proof -
  from building_recordAt [OF assms] obtain r its pl asg ws
    where ra: "recordAt h cov cid = Some (r, its, pl, asg, ws)"
      and pl: "newAt (length h0) h KPlanning pl"
    by blast
  from read_newAt(3) [OF pl] obtain p where p: "readPlanning h pl = Some p" "h ! pl = Planning p"
    by blast
  let ?c = "Planning (p\<lparr>cov_scheduled := v\<rparr>)"
  from assms(1) have g: "grown h0 h" and c: "newAt (length h0) h KCovHistory cov"
    by (simp_all add: building_def)
  have "grown h0 (h[pl := ?c])"
    using g pl p by (intro grown_write) (simp_all add: newAt_def cellOk_def)
  moreover from write_other_kind [OF pl c, of ?c]
  have "h[pl := ?c] ! cov = h ! cov" "newAt (length h0) (h[pl := ?c]) KCovHistory cov"
    by simp_all
  ultimately show ?thesis
    using ra p assms(2) by (simp add: setScheduled_def writeCell_def building_def hasRecord_def)
qed

lemma setWorkflowStatus_ok:
  assumes "building h0 h cov" and "hasRecord h cov cid"
  shows "\<exists>h'. setWorkflowStatus h cov cid v = Some h' \<and> building h0 h' cov \<and> hasRecord h' cov cid"
proof -
  from building_recordAt [OF assms] obtain r its pl asg ws
    where ra: "recordAt h cov cid = Some (r, its, pl, asg, ws)"
      and r: "newAt (length h0) h KCovRecord r" and hr: "h ! r = CovRecord its pl asg ws"
      and refs: "newAt (length h0) h KArray its" "newAt (length h0) h KPlanning pl" "newAt (length h0) h KAssignedTo asg"
    by blast
  let ?c = "CovRecord its pl asg v"
  from assms(1) have g: "grown h0 h" and c: "newAt (length h0) h KCovHistory cov"
    by (simp_all add: building_def)
  have "grown h0 (h[r := ?c])"
    using g r hr refs by (intro grown_write) (simp_all add: newAt_def cellOk_def)
  moreover from write_other_kind [OF r c, of ?c]
  have "h[r := ?c] ! cov = h ! cov" "newAt (length h0) (h[r := ?c]) KCovHistory cov"
    by simp_all
  ultimately show ?thesis
    using ra assms(2) by (simp add: setWorkflowStatus_def writeCell_def building_def hasRecord_def)
qed

lemma alloc_then_write_record:
  assumes "building h0 h cov" and "hasRecord h cov cid"
    and r: "newAt (length h0) h KCovRecord r"
    and c': "cellOk (length h0) h c'"
    and rec: "cellOk (length h0) (h @ [c']) (CovRecord its pl asg ws)"
  shows "building h0 ((h @ [c'])[r := CovRecord its pl asg ws]) cov
       \<and> hasRecord ((h @ [c'])[r := CovRecord its pl asg ws]) cov cid"
proof -
  let ?h1 = "h @ [c']"
  let ?c = "CovRecord its pl asg ws"
  from assms(1) have g: "grown h0 h" and c: "newAt (length h0) h KCovHistory cov"
    by (simp_all add: building_def)
  have g1: "grown h0 ?h1"
    using g c' by (rule grown_alloc)
  have r1: "newAt (length h0) ?h1 KCovRecord r" and c1: "newAt (length h0) ?h1 KCovHistory cov"
    using r c by (simp_all add: newAt_append)
  have "grown h0 (?h1[r := ?c])"
    using g1 r1 rec by (intro grown_write) (simp_all add: newAt_def)
  moreover from write_other_kind [OF r1 c1, of ?c]
  have "?h1[r := ?c] ! cov = ?h1 ! cov" "newAt (length h0) (?h1[r := ?c]) KCovHistory cov"
    by simp_all
  moreover have "?h1 ! cov = h ! cov"
    using c by (simp add: newAt_def nth_append)
  ultimately show ?thesis
    using assms(2) by (simp add: building_def hasRecord_def)
qed

lemma appendItem_ok:
  assumes "building h0 h cov" and "hasRecord h cov cid"
  shows "\<exists>h'. appendItem h cov cid item = Some h' \<and> building h0 h' cov \<and> hasRecord h' cov cid"
proof -
  from building_recordAt [OF assms] obtain r its pl asg ws
    where ra: "recordAt h cov cid = Some (r, its, pl, asg, ws)"
      and r: "newAt (length h0) h KCovRecord r"
      and refs: "newAt (length h0) h KArray its" "newAt (length h0) h KPlanning pl" "newAt (length h0) h KAssignedTo asg"
    by blast
  from read_newAt(1) [OF refs(1)] obtain xs where xs: "readArray h its = Some xs"
    by blast
  from assms(1) have le: "length h0 \<le> length h"
    by (simp add: building_def grown_def)
  have "cellOk (length h0) (h @ [Array (xs @ [item])]) (CovRecord (length h) pl asg ws)"
    using refs le by (simp add: cellOk_def newAt_append) (simp add: newAt_def)
  from alloc_then_write_record [OF assms r _ this]
  show ?thesis
    using ra xs by (simp add: appendItem_def alloc_def writeCell_def cellOk_def)
qed

lemma setAssignedTo_ok:
  assumes "building h0 h cov" and "hasRecord h cov cid"
  shows "\<exists>h'. setAssignedTo h cov cid a = Some h' \<and> building h0 h' cov \<and> hasRecord h' cov cid"
proof -
  from building_recordAt [OF assms] obtain r its pl asg ws
    where ra: "recordAt h cov cid = Some (r, its, pl, asg, ws)"
      and r: "newAt (length h0) h KCovRecord r"
      and refs: "newAt (length h0) h KArray its" "newAt (length h0) h KPlanning pl" "newAt (length h0) h KAssignedTo asg"
    by blast
  from read_newAt(4) [OF refs(3)] obtain old where old: "readAssignedTo h asg = Some old"
    by blast
  from assms(1) have le: "length h0 \<le> length h"
    by (simp add: building_def grown_def)
  have "cellOk (length h0) (h @ [AssignedTo (spread old a)]) (CovRecord its pl (length h) ws)"
    using refs le by (simp add: cellOk_def newAt_append) (simp add: newAt_def)
  from alloc_then_write_record [OF assms r _ this]
  show ?thesis
    using ra old by (simp add: setAssignedTo_def alloc_def writeCell_def cellOk_def)
qed

lemma cellOk_CovHistory_update:
  assumes "cellOk n h (CovHistory kvs)" and "newAt n h KCovRecord r"
  shows "cellOk n h (CovHistory (AList.update cid r kvs))"
proof -
  have "snd ` set (AList.update cid r kvs) \<subseteq> insert r (snd ` set kvs)"
    by (induction kvs) auto
  moreover from assms have "\<forall>x \<in> insert r (snd ` set kvs). newAt n h KCovRecord x"
    by (simp add: cellOk_def)
  ultimately have "\<forall>x \<in> snd ` set (AList.update cid r kvs). newAt n h KCovRecord x"
    by blast
  then show ?thesis
    by (simp add: cellOk_def)
qed

lemma readEntry_grown:
  assumes "grown h0 h" and "readEntry h0 a = Some e"
  shows "readEntry h a = Some e"
proof -
  from assms(2) have a: "a < length h0" and e: "h0 ! a = Entry e"
    by (auto simp: readEntry_def readCell_def split: if_splits cell.splits)
  from assms(1) a have "a < length h" "h ! a = h0 ! a"
    by (simp_all add: grown_def grown_old)
  with e show ?thesis
    by (simp add: readEntry_def readCell_def)
qed

lemma newRecord_ok:
  assumes "building h0 h cov"
  shows "\<exists>h'. newRecord h cov cid = Some h' \<and> building h0 h' cov \<and> hasRecord h' cov cid"
proof -
  from assms have g: "grown h0 h" and c: "newAt (length h0) h KCovHistory cov"
    by (simp_all add: building_def)
  from read_newAt(2) [OF c] obtain kvs
    where rd: "readCovHistory h cov = Some kvs" and hc: "h ! cov = CovHistory kvs"
    by blast
  let ?n = "length h"
  let ?h1 = "h @ [Array []]"
  let ?h2 = "?h1 @ [Planning \<lparr>cov_g2_content_type = None, cov_scheduled = None\<rparr>]"
  let ?h3 = "?h2 @ [AssignedTo []]"
  let ?h4 = "?h3 @ [CovRecord ?n (Suc ?n) (Suc (Suc ?n)) None]"
  let ?r = "Suc (Suc (Suc ?n))"
  let ?c = "CovHistory (AList.update cid ?r kvs)"
  from g have le: "length h0 \<le> length h"
    by (simp add: grown_def)
  have g1: "grown h0 ?h1"
    using g by (rule grown_alloc) (simp add: cellOk_def)
  have g2: "grown h0 ?h2"
    using g1 by (rule grown_alloc) (simp add: cellOk_def)
  have g3: "grown h0 ?h3"
    using g2 by (rule grown_alloc) (simp add: cellOk_def)
  have "cellOk (length h0) ?h3 (CovRecord ?n (Suc ?n) (Suc (Suc ?n)) None)"
    using le by (simp add: cellOk_def newAt_def nth_append)
  with g3 have g4: "grown h0 ?h4"
    by (rule grown_alloc)
  have c4: "newAt (length h0) ?h4 KCovHistory cov"
    using c by (simp add: newAt_append)
  have "cellOk (length h0) h (CovHistory kvs)"
    using grown_cellOk [OF g c] hc by simp
  then have old: "cellOk (length h0) ?h4 (CovHistory kvs)"
    by (auto simp: cellOk_def intro: newAt_append)
  have new: "newAt (length h0) ?h4 KCovRecord ?r"
    using le by (simp add: newAt_def nth_append)
  from old new have ok: "cellOk (length h0) ?h4 ?c"
    by (rule cellOk_CovHistory_update)
  have "grown h0 (?h4[cov := ?c])"
    using g4 c4 ok hc by (intro grown_write) (simp_all add: newAt_def nth_append)
  moreover have "newAt (length h0) (?h4[cov := ?c]) KCovHistory cov"
    using c4 by (simp add: newAt_def)
  moreover have "hasRecord (?h4[cov := ?c]) cov cid"
    using c4 by (simp add: hasRecord_def newAt_def update_conv')
  ultimately show ?thesis
    using rd
    by (simp add: newRecord_def alloc_def writeCell_def building_def Let_def)
qed

lemma planningHistoryLoop_ok:
  assumes "grown h0 h" and "newAt (length h0) h KArray history"
    and "list_all (\<lambda>x. readEntry h0 x \<noteq> None) elems"
  shows "\<exists>h'. planningHistoryLoop h history elems = Some h' \<and> grown h0 h'"
  using assms
proof (induction elems arbitrary: h)
  case Nil
  then show ?case by simp
next
  case (Cons item rest)
  from Cons.prems(3) obtain e where e0: "readEntry h0 item = Some e"
    by auto
  with Cons.prems(1) have e: "readEntry h item = Some e"
    by (simp add: readEntry_grown)
  from read_newAt(1) [OF Cons.prems(2)] obtain xs
    where xs: "readArray h history = Some xs" "h ! history = Array xs"
    by blast
  have "\<exists>h1. planningHistoryStep_st h history item = Some h1 \<and> grown h0 h1
            \<and> newAt (length h0) h1 KArray history"
  proof (cases "truthy (get_coverage_id e)")
    case True
    with e Cons.prems show ?thesis
      by (simp add: planningHistoryStep_st_def)
  next
    case False
    have "grown h0 (h[history := Array (xs @ [item])])"
      using Cons.prems(1,2) xs by (intro grown_write) (simp_all add: newAt_def cellOk_def)
    moreover have "newAt (length h0) (h[history := Array (xs @ [item])]) KArray history"
      using Cons.prems(2) by (simp add: newAt_def)
    ultimately show ?thesis
      using False e xs by (simp add: planningHistoryStep_st_def push_def writeCell_def)
  qed
  then obtain h1 where 1: "planningHistoryStep_st h history item = Some h1" "grown h0 h1"
      "newAt (length h0) h1 KArray history"
    by blast
  from Cons.IH [OF 1(2,3)] Cons.prems(3) 1(1) show ?case
    by simp
qed

section \<open>The helpers on the store compute what the helpers on values compute\<close>

lemma readEntry_append: "kind c \<noteq> KEntry \<Longrightarrow> readEntry (h @ [c]) = readEntry h"
  by (rule ext, cases c) (auto simp: readEntry_def readCell_def nth_append)

lemma readEntry_update:
  assumes "b < length h" and "kind (h ! b) \<noteq> KEntry" and "kind c \<noteq> KEntry"
  shows "readEntry (h[b := c]) = readEntry h"
proof
  fix x
  show "readEntry (h[b := c]) x = readEntry h x"
    using assms
    by (cases "x = b"; cases c; cases "h ! b") (auto simp: readEntry_def readCell_def)
qed

lemma recordOf_eqI:
  assumes "readCell h' r = readCell h r" and "readEntry h' = readEntry h"
    and "\<And>its pl asg ws. h ! r = CovRecord its pl asg ws \<Longrightarrow> r < length h \<Longrightarrow>
           readArray h' its = readArray h its \<and> readPlanning h' pl = readPlanning h pl
           \<and> readAssignedTo h' asg = readAssignedTo h asg"
  shows "recordOf h' r = recordOf h r"
  using assms
  by (auto simp: recordOf_def entriesOf_def arrayOf_def readCell_def
      split: option.splits cell.splits if_splits)

lemma building_member:
  assumes "building h0 h cov" and "h ! cov = CovHistory kvs" and "(k, r) \<in> set kvs"
  shows "\<exists>its pl asg ws. h ! r = CovRecord its pl asg ws
           \<and> newAt (length h0) h KCovRecord r \<and> newAt (length h0) h KArray its
           \<and> newAt (length h0) h KPlanning pl \<and> newAt (length h0) h KAssignedTo asg"
proof -
  from assms(1) have g: "grown h0 h" and c: "newAt (length h0) h KCovHistory cov"
    by (simp_all add: building_def)
  from grown_cellOk [OF g c] assms(2,3) have nr: "newAt (length h0) h KCovRecord r"
    by (force simp: cellOk_def)
  from read_newAt(5) [OF nr] obtain its pl asg ws where hr: "h ! r = CovRecord its pl asg ws"
    by blast
  from grown_cellOk [OF g nr] hr nr show ?thesis
    by (simp add: cellOk_def)
qed

lemma read_append:
  "a < length h \<Longrightarrow> readCell (h @ cs) a = readCell h a"
  "a < length h \<Longrightarrow> readArray (h @ cs) a = readArray h a"
  "a < length h \<Longrightarrow> readPlanning (h @ cs) a = readPlanning h a"
  "a < length h \<Longrightarrow> readAssignedTo (h @ cs) a = readAssignedTo h a"
  "a < length h \<Longrightarrow> readCovHistory (h @ cs) a = readCovHistory h a"
  by (simp_all add: readCell_def readArray_def readPlanning_def readAssignedTo_def
      readCovHistory_def nth_append)

lemma read_update:
  "a \<noteq> b \<Longrightarrow> readCell (h[b := c]) a = readCell h a"
  "a \<noteq> b \<Longrightarrow> readArray (h[b := c]) a = readArray h a"
  "a \<noteq> b \<Longrightarrow> readPlanning (h[b := c]) a = readPlanning h a"
  "a \<noteq> b \<Longrightarrow> readAssignedTo (h[b := c]) a = readAssignedTo h a"
  "a \<noteq> b \<Longrightarrow> readCovHistory (h[b := c]) a = readCovHistory h a"
  by (simp_all add: readCell_def readArray_def readPlanning_def readAssignedTo_def
      readCovHistory_def)

text \<open>Other records read the same after an allocation or after a write to a cell that is not theirs.\<close>

lemma recordOf_append:
  assumes "building h0 h cov" and "h ! cov = CovHistory kvs" and "(k, r) \<in> set kvs"
    and "kind c \<noteq> KEntry"
  shows "recordOf (h @ [c]) r = recordOf h r"
proof -
  from building_member [OF assms(1-3)] obtain its pl asg ws
    where "h ! r = CovRecord its pl asg ws" "newAt (length h0) h KCovRecord r"
      "newAt (length h0) h KArray its" "newAt (length h0) h KPlanning pl"
      "newAt (length h0) h KAssignedTo asg"
    by blast
  then show ?thesis
    using assms(4)
    by (intro recordOf_eqI) (auto simp: read_append readEntry_append newAt_def)
qed

lemma recordOf_update:
  assumes "building h0 h cov" and "h ! cov = CovHistory kvs" and "(k, r) \<in> set kvs"
    and "b < length h" and "kind (h ! b) = kind c" and "kind c \<noteq> KEntry"
    and "b \<noteq> r" and "kind c = KPlanning \<longrightarrow> b \<noteq> plOf h r"
    and "kind c \<noteq> KArray" and "kind c \<noteq> KAssignedTo"
  shows "recordOf (h[b := c]) r = recordOf h r"
proof -
  from building_member [OF assms(1-3)] obtain its pl asg ws
    where hr: "h ! r = CovRecord its pl asg ws" and "newAt (length h0) h KCovRecord r"
      and n: "newAt (length h0) h KArray its" "newAt (length h0) h KPlanning pl"
      "newAt (length h0) h KAssignedTo asg"
    by blast
  have "its \<noteq> b" "asg \<noteq> b" "pl \<noteq> b"
    using n assms(5,8,9,10) hr by (auto simp: newAt_def plOf_def)
  then show ?thesis
    using assms(4-7) hr
    by (intro recordOf_eqI) (auto simp: read_update readEntry_update)
qed

text \<open>Rewriting one value of an association list with distinct values.\<close>

lemma map_update_value:
  assumes "distinct (map fst kvs)" and "distinct (map snd kvs)" and "map_of kvs cid = Some r"
    and "\<forall>r' \<in> snd ` set kvs. r' \<noteq> r \<longrightarrow> f' r' = f r'"
  shows "map (\<lambda>(k, x). (k, f' x)) kvs = AList.update cid (f' r) (map (\<lambda>(k, x). (k, f x)) kvs)"
  using assms
proof (induction kvs)
  case Nil
  then show ?case by simp
next
  case (Cons kv kvs)
  obtain k x where kv: "kv = (k, x)" by (cases kv)
  show ?case
  proof (cases "k = cid")
    case True
    with Cons.prems kv have x: "x = r" by simp
    have "r \<notin> snd ` set kvs"
      using Cons.prems(2) kv x by auto
    have "f' r' = f r'" if "r' \<in> snd ` set kvs" for r'
    proof -
      from that \<open>r \<notin> snd ` set kvs\<close> have "r' \<noteq> r" by auto
      moreover from that have "r' \<in> snd ` set (kv # kvs)" by auto
      ultimately show ?thesis using Cons.prems(4) by blast
    qed
    then have "map (\<lambda>(k, x). (k, f' x)) kvs = map (\<lambda>(k, x). (k, f x)) kvs"
      by (intro map_cong) force+
    with True kv x show ?thesis by simp
  next
    case False
    with Cons.prems kv have m: "map_of kvs cid = Some r" by simp
    then have "r \<in> snd ` set kvs" by (force dest: map_of_SomeD)
    with Cons.prems(2) kv have "x \<noteq> r" by auto
    with Cons.prems(4) kv have fx: "f' x = f x" by simp
    have "map (\<lambda>(k, x). (k, f' x)) kvs = AList.update cid (f' r) (map (\<lambda>(k, x). (k, f x)) kvs)"
      using Cons.prems by (intro Cons.IH [OF _ _ m]) auto
    with False kv fx show ?thesis by simp
  qed
qed

lemma refines_unfold:
  assumes "refines h0 h cov G"
  obtains kvs where "h ! cov = CovHistory kvs" and "readCovHistory h cov = Some kvs"
    and "G = map (\<lambda>(k, r). (k, recordOf h r)) kvs"
    and "distinct (map fst kvs)" and "distinct (map snd kvs)"
    and "distinct (map (\<lambda>(k, r). plOf h r) kvs)"
    and "building h0 h cov"
proof -
  from assms have b: "building h0 h cov" and s: "separate h cov" and g: "groupingOf h cov = G"
    by (simp_all add: refines_def)
  from b have "newAt (length h0) h KCovHistory cov"
    by (simp add: building_def)
  from read_newAt(2) [OF this] obtain kvs
    where k: "readCovHistory h cov = Some kvs" "h ! cov = CovHistory kvs"
    by blast
  with s g b that show ?thesis
    by (auto simp: separate_def groupingOf_def)
qed

lemma refines_record:
  assumes "refines h0 h cov G" and "map_of G cid = Some R"
  obtains kvs r its pl asg ws where "h ! cov = CovHistory kvs" and "map_of kvs cid = Some r"
    and "h ! r = CovRecord its pl asg ws" and "R = recordOf h r"
    and "recordAt h cov cid = Some (r, its, pl, asg, ws)"
    and "newAt (length h0) h KCovRecord r" and "newAt (length h0) h KArray its"
    and "newAt (length h0) h KPlanning pl" and "newAt (length h0) h KAssignedTo asg"
proof -
  from assms(1) obtain kvs where k: "h ! cov = CovHistory kvs" "readCovHistory h cov = Some kvs"
      "G = map (\<lambda>(k, r). (k, recordOf h r)) kvs" "building h0 h cov"
    by (rule refines_unfold)
  have "map_of G cid = map_option (recordOf h) (map_of kvs cid)"
    unfolding k(3) by (induction kvs) auto
  with assms(2) obtain r where r: "map_of kvs cid = Some r" "R = recordOf h r"
    by auto
  then have "(cid, r) \<in> set kvs"
    by (auto dest: map_of_SomeD)
  from building_member [OF k(4) k(1) this] obtain its pl asg ws
    where m: "h ! r = CovRecord its pl asg ws" "newAt (length h0) h KCovRecord r"
      "newAt (length h0) h KArray its" "newAt (length h0) h KPlanning pl"
      "newAt (length h0) h KAssignedTo asg"
    by blast
  then have "recordAt h cov cid = Some (r, its, pl, asg, ws)"
    using k(2) r(1) by (simp add: recordAt_def readCell_def newAt_def)
  with k r m that show ?thesis
    by blast
qed

lemma refines_alloc:
  assumes "refines h0 h cov G" and "kind c \<noteq> KEntry" and "cellOk (length h0) h c"
  shows "refines h0 (h @ [c]) cov G"
proof -
  from assms(1) obtain kvs where k: "h ! cov = CovHistory kvs" "readCovHistory h cov = Some kvs"
      "G = map (\<lambda>(k, r). (k, recordOf h r)) kvs" "building h0 h cov"
      "distinct (map fst kvs)" "distinct (map snd kvs)"
      "distinct (map (\<lambda>(k, r). plOf h r) kvs)"
    by (rule refines_unfold)
  from k(4) have g: "grown h0 h" and c: "newAt (length h0) h KCovHistory cov"
    by (simp_all add: building_def)
  have b': "building h0 (h @ [c]) cov"
    using grown_alloc [OF g assms(3)] c by (simp add: building_def newAt_append)
  have cov: "(h @ [c]) ! cov = CovHistory kvs" "readCovHistory (h @ [c]) cov = Some kvs"
    using c k(1,2) by (simp_all add: newAt_def nth_append read_append)
  have rec: "recordOf (h @ [c]) r = recordOf h r" if "(k', r) \<in> set kvs" for k' r
    using recordOf_append [OF k(4) k(1) that assms(2)] .
  have pl: "plOf (h @ [c]) r = plOf h r" if "(k', r) \<in> set kvs" for k' r
  proof -
    from building_member [OF k(4) k(1) that] have "r < length h"
      by (auto simp: newAt_def)
    then show ?thesis by (simp add: plOf_def nth_append)
  qed
  have pm: "map (\<lambda>(k, r). plOf (h @ [c]) r) kvs = map (\<lambda>(k, r). plOf h r) kvs"
    by (rule map_cong) (auto simp: pl)
  have "separate (h @ [c]) cov"
    unfolding separate_def cov(1) cell.case pm using k(5-7) by simp
  moreover have "groupingOf (h @ [c]) cov = G"
    unfolding k(3) groupingOf_def cov(2) by (auto simp: rec intro!: map_cong)
  ultimately show ?thesis
    using b' by (simp add: refines_def)
qed

lemma recordAt_cases:
  assumes "recordAt h cov cid = Some (r, its, pl, asg, ws)"
  obtains kvs where "readCovHistory h cov = Some kvs" and "h ! cov = CovHistory kvs"
    and "cov < length h" and "map_of kvs cid = Some r" and "(cid, r) \<in> set kvs"
    and "r < length h" and "h ! r = CovRecord its pl asg ws"
  using assms
  by (auto simp: recordAt_def readCovHistory_def readCell_def
      split: option.splits cell.splits if_splits Option.bind_splits dest: map_of_SomeD)

lemma recordAt_append:
  "recordAt h cov cid = Some (r, its, pl, asg, ws)
     \<Longrightarrow> recordAt (h @ cs) cov cid = Some (r, its, pl, asg, ws)"
  by (erule recordAt_cases) (simp add: recordAt_def readCovHistory_def readCell_def nth_append)

lemma recordOf_CovRecord:
  "r < length h \<Longrightarrow> h ! r = CovRecord its pl asg ws \<Longrightarrow>
     recordOf h r =
       \<lparr>items = entriesOf h (arrayOf h its),
        planning = (case readPlanning h pl of Some p \<Rightarrow> p | None \<Rightarrow> planning newCoverageHistory),
        assigned_to = (case readAssignedTo h asg of Some a \<Rightarrow> a | None \<Rightarrow> []),
        workflow_status = ws\<rparr>"
  by (simp add: recordOf_def readCell_def)

lemma refines_write_planning:
  assumes "refines h0 h cov G" and "recordAt h cov cid = Some (r, its, pl, asg, ws)"
  shows "refines h0 (h[pl := Planning p']) cov (AList.update cid ((recordOf h r)\<lparr>planning := p'\<rparr>) G)"
proof -
  let ?h' = "h[pl := Planning p']"
  from assms(1) obtain kvs where k: "h ! cov = CovHistory kvs" "readCovHistory h cov = Some kvs"
      "G = map (\<lambda>(k, r). (k, recordOf h r)) kvs" "building h0 h cov"
      "distinct (map fst kvs)" "distinct (map snd kvs)"
      "distinct (map (\<lambda>(k, r). plOf h r) kvs)"
    by (rule refines_unfold)
  from assms(2) k(1) have t: "map_of kvs cid = Some r" "(cid, r) \<in> set kvs"
      "h ! r = CovRecord its pl asg ws" "r < length h"
    by (auto elim!: recordAt_cases)
  from building_member [OF k(4) k(1) t(2)] t(3)
  have n: "newAt (length h0) h KCovRecord r" "newAt (length h0) h KArray its"
      "newAt (length h0) h KPlanning pl" "newAt (length h0) h KAssignedTo asg"
    by auto
  from k(4) have g: "grown h0 h" and c: "newAt (length h0) h KCovHistory cov"
    by (simp_all add: building_def)
  have "grown h0 ?h'"
    using g n(3) by (intro grown_write) (simp_all add: newAt_def cellOk_def)
  moreover from write_other_kind [OF n(3) c, of "Planning p'"]
  have cov: "?h' ! cov = CovHistory kvs" and "newAt (length h0) ?h' KCovHistory cov"
    using k(1) by simp_all
  ultimately have b': "building h0 ?h' cov"
    by (simp add: building_def)
  have rcov: "readCovHistory ?h' cov = Some kvs"
    using cov c by (simp add: readCovHistory_def readCell_def newAt_def)
  have other: "r' \<noteq> pl \<and> plOf h r' \<noteq> pl" if "(k', r') \<in> set kvs" "r' \<noteq> r" for k' r'
  proof -
    from building_member [OF k(4) k(1) that(1)] n(3) have "r' \<noteq> pl"
      by (auto simp: newAt_def)
    moreover have "plOf h r' \<noteq> plOf h r"
    proof
      assume "plOf h r' = plOf h r"
      moreover from k(7) have "inj_on (\<lambda>(k, r). plOf h r) (set kvs)"
        by (simp add: distinct_map)
      ultimately have "(k', r') = (cid, r)"
        using that(1) t(2) inj_onD [of "\<lambda>(k, r). plOf h r" "set kvs" "(k', r')" "(cid, r)"]
        by simp
      with that(2) show False by simp
    qed
    ultimately show ?thesis
      using t(3) by (simp add: plOf_def)
  qed
  have pl: "plOf ?h' r' = plOf h r'" if "(k', r') \<in> set kvs" for k' r'
  proof -
    from building_member [OF k(4) k(1) that] n(3) have "r' \<noteq> pl"
      by (auto simp: newAt_def)
    then show ?thesis by (simp add: plOf_def)
  qed
  have pm: "map (\<lambda>(k, r). plOf ?h' r) kvs = map (\<lambda>(k, r). plOf h r) kvs"
    by (rule map_cong) (auto simp: pl)
  have sep: "separate ?h' cov"
    unfolding separate_def cov cell.case pm using k(5-7) by simp
  have rest: "\<forall>r' \<in> snd ` set kvs. r' \<noteq> r \<longrightarrow> recordOf ?h' r' = recordOf h r'"
  proof (intro ballI impI)
    fix r' assume "r' \<in> snd ` set kvs" and ne: "r' \<noteq> r"
    then obtain k' where m: "(k', r') \<in> set kvs"
      by auto
    from other [OF m ne] n(3)
    show "recordOf ?h' r' = recordOf h r'"
      by (intro recordOf_update [OF k(4) k(1) m]) (auto simp: newAt_def)
  qed
  have "its \<noteq> pl" "asg \<noteq> pl" "r \<noteq> pl" "pl < length h"
    using n by (auto simp: newAt_def)
  then have tgt: "recordOf ?h' r = (recordOf h r)\<lparr>planning := p'\<rparr>"
    using t(3,4) n(3)
    by (simp add: recordOf_CovRecord read_update readEntry_update entriesOf_def arrayOf_def
        newAt_def)
       (simp add: readPlanning_def readCell_def)
  have "groupingOf ?h' cov = AList.update cid (recordOf ?h' r) G"
    unfolding groupingOf_def rcov k(3) option.case
    using k(5,6) t(1) rest by (rule map_update_value)
  with tgt sep b' show ?thesis
    by (simp add: refines_def)
qed

lemma refines_write_record:
  assumes "refines h0 h cov G" and "recordAt h cov cid = Some (r, its, pl, asg, ws)"
    and "newAt (length h0) h KArray its'" and "newAt (length h0) h KAssignedTo asg'"
  shows "refines h0 (h[r := CovRecord its' pl asg' ws']) cov
           (AList.update cid
              \<lparr>items = entriesOf h (arrayOf h its'),
               planning = planning (recordOf h r),
               assigned_to = (case readAssignedTo h asg' of Some a \<Rightarrow> a | None \<Rightarrow> []),
               workflow_status = ws'\<rparr> G)"
proof -
  let ?c = "CovRecord its' pl asg' ws'"
  let ?h' = "h[r := ?c]"
  from assms(1) obtain kvs where k: "h ! cov = CovHistory kvs" "readCovHistory h cov = Some kvs"
      "G = map (\<lambda>(k, r). (k, recordOf h r)) kvs" "building h0 h cov"
      "distinct (map fst kvs)" "distinct (map snd kvs)"
      "distinct (map (\<lambda>(k, r). plOf h r) kvs)"
    by (rule refines_unfold)
  from assms(2) k(1) have t: "map_of kvs cid = Some r" "(cid, r) \<in> set kvs"
      "h ! r = CovRecord its pl asg ws" "r < length h"
    by (auto elim!: recordAt_cases)
  from building_member [OF k(4) k(1) t(2)] t(3)
  have n: "newAt (length h0) h KCovRecord r" "newAt (length h0) h KArray its"
      "newAt (length h0) h KPlanning pl" "newAt (length h0) h KAssignedTo asg"
    by auto
  from k(4) have g: "grown h0 h" and c: "newAt (length h0) h KCovHistory cov"
    by (simp_all add: building_def)
  have "grown h0 ?h'"
    using g n(1,3) assms(3,4) by (intro grown_write) (simp_all add: newAt_def cellOk_def)
  moreover from write_other_kind [OF n(1) c, of ?c]
  have cov: "?h' ! cov = CovHistory kvs" and "newAt (length h0) ?h' KCovHistory cov"
    using k(1) by simp_all
  ultimately have b': "building h0 ?h' cov"
    by (simp add: building_def)
  have rcov: "readCovHistory ?h' cov = Some kvs"
    using cov c by (simp add: readCovHistory_def readCell_def newAt_def)
  have pl: "plOf ?h' r' = plOf h r'" for r'
    using t(3,4) by (cases "r' = r") (simp_all add: plOf_def)
  have sep: "separate ?h' cov"
    unfolding separate_def cov cell.case pl using k(5-7) by simp
  have rest: "\<forall>r' \<in> snd ` set kvs. r' \<noteq> r \<longrightarrow> recordOf ?h' r' = recordOf h r'"
  proof (intro ballI impI)
    fix r' assume "r' \<in> snd ` set kvs" and ne: "r' \<noteq> r"
    then obtain k' where m: "(k', r') \<in> set kvs"
      by auto
    from ne t(3,4) show "recordOf ?h' r' = recordOf h r'"
      by (intro recordOf_update [OF k(4) k(1) m]) auto
  qed
  have "its' \<noteq> r" "asg' \<noteq> r" "pl \<noteq> r"
    using n assms(3,4) by (auto simp: newAt_def)
  then have tgt: "recordOf ?h' r =
      \<lparr>items = entriesOf h (arrayOf h its'),
       planning = planning (recordOf h r),
       assigned_to = (case readAssignedTo h asg' of Some a \<Rightarrow> a | None \<Rightarrow> []),
       workflow_status = ws'\<rparr>"
    using t(3,4)
    by (simp add: recordOf_CovRecord read_update readEntry_update entriesOf_def arrayOf_def)
  have "groupingOf ?h' cov = AList.update cid (recordOf ?h' r) G"
    unfolding groupingOf_def rcov k(3) option.case
    using k(5,6) t(1) rest by (rule map_update_value)
  with tgt sep b' show ?thesis
    by (simp add: refines_def)
qed

lemma refines_map_of:
  assumes "refines h0 h cov G" and "recordAt h cov cid = Some (r, its, pl, asg, ws)"
  shows "map_of G cid = Some (recordOf h r)"
proof -
  from assms(1) obtain kvs where k: "h ! cov = CovHistory kvs"
      "G = map (\<lambda>(k, r). (k, recordOf h r)) kvs"
    by (rule refines_unfold)
  have "map_of G cid = map_option (recordOf h) (map_of kvs cid)"
    unfolding k(2) by (induction kvs) auto
  with assms(2) k(1) show ?thesis
    by (auto elim!: recordAt_cases)
qed

lemma setG2ContentType_refines:
  assumes "refines h0 h cov G" and "map_of G cid = Some R"
  shows "\<exists>h'. setG2ContentType h cov cid v = Some h'
           \<and> refines h0 h' cov
                (AList.update cid (R\<lparr>planning := (planning R)\<lparr>cov_g2_content_type := v\<rparr>\<rparr>) G)"
proof -
  from assms obtain kvs r its pl asg ws
    where ra: "recordAt h cov cid = Some (r, its, pl, asg, ws)" and R: "R = recordOf h r"
      and hr: "h ! r = CovRecord its pl asg ws" "newAt (length h0) h KCovRecord r"
      and pl: "newAt (length h0) h KPlanning pl"
    by (rule refines_record)
  from read_newAt(3) [OF pl] obtain p where p: "readPlanning h pl = Some p"
    by blast
  with hr have "planning R = p"
    by (simp add: R recordOf_CovRecord newAt_def)
  with refines_write_planning [OF assms(1) ra, of "p\<lparr>cov_g2_content_type := v\<rparr>"] ra p R
  show ?thesis
    by (simp add: setG2ContentType_def writeCell_def)
qed

lemma setScheduled_refines:
  assumes "refines h0 h cov G" and "map_of G cid = Some R"
  shows "\<exists>h'. setScheduled h cov cid v = Some h'
           \<and> refines h0 h' cov
                (AList.update cid (R\<lparr>planning := (planning R)\<lparr>cov_scheduled := v\<rparr>\<rparr>) G)"
proof -
  from assms obtain kvs r its pl asg ws
    where ra: "recordAt h cov cid = Some (r, its, pl, asg, ws)" and R: "R = recordOf h r"
      and hr: "h ! r = CovRecord its pl asg ws" "newAt (length h0) h KCovRecord r"
      and pl: "newAt (length h0) h KPlanning pl"
    by (rule refines_record)
  from read_newAt(3) [OF pl] obtain p where p: "readPlanning h pl = Some p"
    by blast
  with hr have "planning R = p"
    by (simp add: R recordOf_CovRecord newAt_def)
  with refines_write_planning [OF assms(1) ra, of "p\<lparr>cov_scheduled := v\<rparr>"] ra p R
  show ?thesis
    by (simp add: setScheduled_def writeCell_def)
qed

lemma setWorkflowStatus_refines:
  assumes "refines h0 h cov G" and "map_of G cid = Some R"
  shows "\<exists>h'. setWorkflowStatus h cov cid v = Some h'
           \<and> refines h0 h' cov (AList.update cid (R\<lparr>workflow_status := v\<rparr>) G)"
proof -
  from assms obtain kvs r its pl asg ws
    where ra: "recordAt h cov cid = Some (r, its, pl, asg, ws)" and R: "R = recordOf h r"
      and hr: "h ! r = CovRecord its pl asg ws" "newAt (length h0) h KCovRecord r"
      and n: "newAt (length h0) h KArray its" "newAt (length h0) h KAssignedTo asg"
    by (rule refines_record)
  have "R\<lparr>workflow_status := v\<rparr> =
      \<lparr>items = entriesOf h (arrayOf h its),
       planning = planning (recordOf h r),
       assigned_to = (case readAssignedTo h asg of Some a \<Rightarrow> a | None \<Rightarrow> []),
       workflow_status = v\<rparr>"
    using hr by (simp add: R recordOf_CovRecord newAt_def)
  with refines_write_record [OF assms(1) ra n, of v] ra
  show ?thesis
    by (simp add: setWorkflowStatus_def writeCell_def)
qed

lemma entriesOf_snoc:
  "readEntry h x = Some e \<Longrightarrow> entriesOf h (xs @ [x]) = entriesOf h xs @ [e]"
  by (simp add: entriesOf_def List.map_filter_def)

lemma appendItem_refines:
  assumes "refines h0 h cov G" and "map_of G cid = Some R" and "readEntry h item = Some e"
  shows "\<exists>h'. appendItem h cov cid item = Some h'
           \<and> refines h0 h' cov (AList.update cid (R\<lparr>items := items R @ [e]\<rparr>) G)"
proof -
  from assms(1,2) obtain kvs r its pl asg ws
    where ra: "recordAt h cov cid = Some (r, its, pl, asg, ws)" and R: "R = recordOf h r"
      and hc: "h ! cov = CovHistory kvs" and m: "map_of kvs cid = Some r"
      and hr: "h ! r = CovRecord its pl asg ws" "newAt (length h0) h KCovRecord r"
      and n: "newAt (length h0) h KArray its" "newAt (length h0) h KAssignedTo asg"
    by (rule refines_record)
  from read_newAt(1) [OF n(1)] obtain xs where xs: "readArray h its = Some xs"
    by blast
  let ?h1 = "h @ [Array (xs @ [item])]"
  from assms(1) have b: "building h0 h cov"
    by (simp add: refines_def)
  then have le: "length h0 \<le> length h"
    by (simp add: building_def grown_def)
  have r1: "refines h0 ?h1 cov G"
    using assms(1) by (rule refines_alloc) (simp_all add: cellOk_def)
  have ra1: "recordAt ?h1 cov cid = Some (r, its, pl, asg, ws)"
    using ra by (rule recordAt_append)
  have n1: "newAt (length h0) ?h1 KArray (length h)" "newAt (length h0) ?h1 KAssignedTo asg"
    using le n(2) by (simp_all add: newAt_append) (simp add: newAt_def)
  have same: "recordOf ?h1 r = recordOf h r"
    using m by (intro recordOf_append [OF b hc]) (auto dest: map_of_SomeD)
  have "\<lparr>items = entriesOf ?h1 (arrayOf ?h1 (length h)),
         planning = planning (recordOf ?h1 r),
         assigned_to = (case readAssignedTo ?h1 asg of Some a \<Rightarrow> a | None \<Rightarrow> []),
         workflow_status = ws\<rparr> = R\<lparr>items := items R @ [e]\<rparr>"
    using hr n xs assms(3)
    by (simp add: same R recordOf_CovRecord newAt_def read_append arrayOf_def readArray_def
        readCell_def entriesOf_snoc readEntry_append)
       (simp add: entriesOf_def readEntry_append)
  with refines_write_record [OF r1 ra1 n1, of ws] ra xs show ?thesis
    by (simp add: appendItem_def alloc_def writeCell_def)
qed

lemma setAssignedTo_refines:
  assumes "refines h0 h cov G" and "map_of G cid = Some R"
  shows "\<exists>h'. setAssignedTo h cov cid a = Some h'
           \<and> refines h0 h' cov (AList.update cid (R\<lparr>assigned_to := spread (assigned_to R) a\<rparr>) G)"
proof -
  from assms(1,2) obtain kvs r its pl asg ws
    where ra: "recordAt h cov cid = Some (r, its, pl, asg, ws)" and R: "R = recordOf h r"
      and hc: "h ! cov = CovHistory kvs" and m: "map_of kvs cid = Some r"
      and hr: "h ! r = CovRecord its pl asg ws" "newAt (length h0) h KCovRecord r"
      and n: "newAt (length h0) h KArray its" "newAt (length h0) h KAssignedTo asg"
    by (rule refines_record)
  from read_newAt(4) [OF n(2)] obtain old where old: "readAssignedTo h asg = Some old"
    by blast
  let ?h1 = "h @ [AssignedTo (spread old a)]"
  from assms(1) have b: "building h0 h cov"
    by (simp add: refines_def)
  then have le: "length h0 \<le> length h"
    by (simp add: building_def grown_def)
  have r1: "refines h0 ?h1 cov G"
    using assms(1) by (rule refines_alloc) (simp_all add: cellOk_def)
  have ra1: "recordAt ?h1 cov cid = Some (r, its, pl, asg, ws)"
    using ra by (rule recordAt_append)
  have n1: "newAt (length h0) ?h1 KArray its" "newAt (length h0) ?h1 KAssignedTo (length h)"
    using le n(1) by (simp_all add: newAt_append) (simp add: newAt_def)
  have same: "recordOf ?h1 r = recordOf h r"
    using m by (intro recordOf_append [OF b hc]) (auto dest: map_of_SomeD)
  have "\<lparr>items = entriesOf ?h1 (arrayOf ?h1 its),
         planning = planning (recordOf ?h1 r),
         assigned_to = (case readAssignedTo ?h1 (length h) of Some a \<Rightarrow> a | None \<Rightarrow> []),
         workflow_status = ws\<rparr> = R\<lparr>assigned_to := spread (assigned_to R) a\<rparr>"
    using hr n old
    by (simp add: same R recordOf_CovRecord newAt_def read_append arrayOf_def
        readAssignedTo_def readCell_def entriesOf_def readEntry_append)
  with refines_write_record [OF r1 ra1 n1, of ws] ra old show ?thesis
    by (simp add: setAssignedTo_def alloc_def writeCell_def)
qed

lemma update_new_key: "map_of kvs k = None \<Longrightarrow> AList.update k v kvs = kvs @ [(k, v)]"
  by (induction kvs) (auto split: if_splits)

lemma readEntry_append_list:
  assumes "\<forall>c \<in> set cs. kind c \<noteq> KEntry"
  shows "readEntry (h @ cs) = readEntry h"
proof
  fix x
  show "readEntry (h @ cs) x = readEntry h x"
  proof (cases "x < length h")
    case True
    then show ?thesis by (simp add: readEntry_def readCell_def nth_append)
  next
    case False
    show ?thesis
    proof (cases "x < length (h @ cs)")
      case True
      with False have "(h @ cs) ! x \<in> set cs"
        by (simp add: nth_append)
      with assms have "kind ((h @ cs) ! x) \<noteq> KEntry"
        by blast
      with True False show ?thesis
        by (auto simp: readEntry_def readCell_def kind_eq split: cell.splits)
    next
      case False
      then show ?thesis by (simp add: readEntry_def readCell_def)
    qed
  qed
qed

lemma recordOf_extend_write:
  assumes "building h0 h cov" and "h ! cov = CovHistory kvs" and "(k, r) \<in> set kvs"
    and "\<forall>c \<in> set cs. kind c \<noteq> KEntry"
  shows "recordOf ((h @ cs)[cov := CovHistory kvs']) r = recordOf h r"
proof -
  from building_member [OF assms(1-3)] obtain its pl asg ws
    where hr: "h ! r = CovRecord its pl asg ws" and n: "newAt (length h0) h KCovRecord r"
      "newAt (length h0) h KArray its" "newAt (length h0) h KPlanning pl"
      "newAt (length h0) h KAssignedTo asg"
    by blast
  from assms(1) have c: "newAt (length h0) h KCovHistory cov"
    by (simp add: building_def)
  have ne: "r \<noteq> cov" "its \<noteq> cov" "pl \<noteq> cov" "asg \<noteq> cov"
    using n c by (auto simp: newAt_def)
  have "readEntry ((h @ cs)[cov := CovHistory kvs']) = readEntry (h @ cs)"
    using c assms(2) by (intro readEntry_update) (simp_all add: newAt_def nth_append)
  then have e: "readEntry ((h @ cs)[cov := CovHistory kvs']) = readEntry h"
    using assms(4) by (simp add: readEntry_append_list)
  show ?thesis
    using ne n hr e
    by (intro recordOf_eqI) (auto simp: read_update read_append newAt_def)
qed

lemma newRecord_refines:
  assumes "refines h0 h cov G" and "map_of G cid = None"
  shows "\<exists>h'. newRecord h cov cid = Some h'
           \<and> refines h0 h' cov (AList.update cid newCoverageHistory G)"
proof -
  from assms(1) obtain kvs where k: "h ! cov = CovHistory kvs" "readCovHistory h cov = Some kvs"
      "G = map (\<lambda>(k, r). (k, recordOf h r)) kvs" "building h0 h cov"
      "distinct (map fst kvs)" "distinct (map snd kvs)"
      "distinct (map (\<lambda>(k, r). plOf h r) kvs)"
    by (rule refines_unfold)
  have mG: "map_of G cid = map_option (recordOf h) (map_of kvs cid)"
    unfolding k(3) by (induction kvs) auto
  with assms(2) have None: "map_of kvs cid = None"
    by simp
  let ?n = "length h"
  let ?r = "Suc (Suc (Suc ?n))"
  let ?cs = "[Array [], Planning \<lparr>cov_g2_content_type = None, cov_scheduled = None\<rparr>,
              AssignedTo [], CovRecord ?n (Suc ?n) (Suc (Suc ?n)) None]"
  let ?kvs = "kvs @ [(cid, ?r)]"
  let ?h' = "(h @ ?cs)[cov := CovHistory ?kvs]"
  from k(4) have le: "length h0 \<le> length h" and c: "newAt (length h0) h KCovHistory cov"
    by (simp_all add: building_def grown_def)
  then have cl: "cov < length h"
    by (simp add: newAt_def)
  have cr: "newRecord h cov cid = Some ?h'"
    using k(2) None
    by (simp add: newRecord_def alloc_def writeCell_def update_new_key)
  from newRecord_ok [OF k(4), of cid] cr have b': "building h0 ?h' cov"
    by simp
  have old: "r < length h \<and> r \<noteq> cov \<and> plOf h r < length h"
    if "(k', r) \<in> set kvs" for k' r
    using building_member [OF k(4) k(1) that] c by (auto simp: newAt_def plOf_def)
  have cov': "?h' ! cov = CovHistory ?kvs" "readCovHistory ?h' cov = Some ?kvs"
    using cl by (simp_all add: readCovHistory_def readCell_def)
  have recs: "recordOf ?h' r = recordOf h r" if "(k', r) \<in> set kvs" for k' r
    using k(4) k(1) that by (rule recordOf_extend_write) simp
  have new: "recordOf ?h' ?r = newCoverageHistory"
    using cl
    by (simp add: recordOf_def readCell_def nth_append newCoverageHistory_def arrayOf_def
        readArray_def readPlanning_def readAssignedTo_def entriesOf_def List.map_filter_def)
  have pls: "plOf ?h' r = plOf h r" if "(k', r) \<in> set kvs" for k' r
    using old [OF that] by (simp add: plOf_def nth_append)
  have plnew: "plOf ?h' ?r = Suc ?n"
    using cl by (simp add: plOf_def nth_append)
  have pm: "map (\<lambda>(k, r). plOf ?h' r) kvs = map (\<lambda>(k, r). plOf h r) kvs"
    by (rule map_cong) (auto simp: pls)
  have rm: "map (\<lambda>(k, r). (k, recordOf ?h' r)) kvs = G"
    unfolding k(3) by (rule map_cong) (auto simp: recs)
  have "cid \<notin> fst ` set kvs"
    using None by (simp add: map_of_eq_None_iff)
  moreover have "?r \<notin> snd ` set kvs"
    using old by fastforce
  moreover have "Suc ?n \<notin> (\<lambda>(k, r). plOf h r) ` set kvs"
    using old by fastforce
  ultimately have sep: "separate ?h' cov"
    unfolding separate_def cov'(1) cell.case
    using k(5-7) by (simp add: pm plnew)
  from assms(2) have "AList.update cid newCoverageHistory G = G @ [(cid, newCoverageHistory)]"
    by (rule update_new_key)
  moreover have "groupingOf ?h' cov = G @ [(cid, newCoverageHistory)]"
    unfolding groupingOf_def cov'(2) option.case by (simp add: rm new)
  ultimately show ?thesis
    using cr b' sep by (simp add: refines_def)
qed

text \<open>
  The test of line 25 and the creation of the record, on a store that reads back as \<open>G\<close>:
  unless the test finds something for an id that is not an own key, the store then holds
  a record for the id.
\<close>

lemma ensure_refines:
  assumes "refines h0 h cov G"
    and "\<not> (get_truthy deep G cid \<and> map_of G cid = None)"
  shows "\<exists>h'. (if \<not> get_truthy deep (groupingOf h cov) cid then newRecord h cov cid else Some h)
                 = Some h'
           \<and> refines h0 h' cov
                (AList.update cid
                   (case map_of G cid of None \<Rightarrow> newCoverageHistory | Some R \<Rightarrow> R) G)"
proof -
  from assms(1) have gG: "groupingOf h cov = G"
    by (simp add: refines_def)
  show ?thesis
  proof (cases "map_of G cid")
    case None
    with assms(2) have "\<not> get_truthy deep G cid"
      by simp
    with newRecord_refines [OF assms(1) None] None gG show ?thesis
      by simp
  next
    case (Some R)
    then have "get_truthy deep G cid"
      by (simp add: get_truthy_def)
    moreover from Some have "AList.update cid R G = G"
      by (rule update_triv)
    ultimately show ?thesis
      using Some gG assms(1) by simp
  qed
qed

lemma appendItem_raises:
  assumes "refines h0 h cov G" and "map_of G cid = None"
  shows "appendItem h cov cid item = None"
proof -
  from assms(1) obtain kvs where k: "h ! cov = CovHistory kvs" "readCovHistory h cov = Some kvs"
      "G = map (\<lambda>(k, r). (k, recordOf h r)) kvs"
    by (rule refines_unfold)
  have "map_of G cid = map_option (recordOf h) (map_of kvs cid)"
    unfolding k(3) by (induction kvs) auto
  with assms(2) have "map_of kvs cid = None"
    by simp
  with k(2) show ?thesis
    by (simp add: appendItem_def recordAt_def)
qed

lemma refines_readEntry:
  assumes "refines h0 h cov G" and "readEntry h0 item = Some e"
  shows "readEntry h item = Some e"
  using assms by (auto simp: refines_def building_def intro: readEntry_grown)

lemma coverageHistoryStep_st_refines:
  assumes "refines h0 h cov G" and "readEntry h0 item = Some e"
  shows "\<exists>h'. (case coverageHistoryStep deep G e of
                 Inl err \<Rightarrow> coverageHistoryStep_st deep h cov item = (h', Some err)
                            \<and> refines h0 h' cov G
               | Inr G' \<Rightarrow> coverageHistoryStep_st deep h cov item = (h', None)
                            \<and> refines h0 h' cov G')"
proof -
  from assms have e: "readEntry h item = Some e"
    by (rule refines_readEntry)
  from assms(1) have gG: "groupingOf h cov = G"
    by (simp add: refines_def)
  let ?cid = "the (get_coverage_id e)"
  show ?thesis
  proof (cases "truthy (get_coverage_id e)")
    case False
    with e assms(1) show ?thesis
      by (simp add: coverageHistoryStep_st_def coverageHistoryStep_cases groupStep_def)
  next
    case True
    show ?thesis
    proof (cases "get_truthy deep G ?cid \<and> map_of G ?cid = None")
      case blocked: True
      then have "appendItem h cov ?cid item = None"
        using appendItem_raises [OF assms(1)] by simp
      with e True blocked gG assms(1) show ?thesis
        by (simp add: coverageHistoryStep_st_def coverageHistoryStep_cases)
    next
      case free: False
      let ?R0 = "case map_of G ?cid of None \<Rightarrow> newCoverageHistory | Some R \<Rightarrow> R"
      let ?R1 = "?R0\<lparr>items := items ?R0 @ [e]\<rparr>"
      let ?R2 = "if truthy (get_g2_content_type e)
                 then ?R1\<lparr>planning := (planning ?R1)\<lparr>cov_g2_content_type := get_g2_content_type e\<rparr>\<rparr>
                 else ?R1"
      let ?R3 = "if truthy (get_scheduled e)
                 then ?R2\<lparr>planning := (planning ?R2)\<lparr>cov_scheduled := map_option Moment (get_scheduled e)\<rparr>\<rparr>
                 else ?R2"
      let ?R4 = "case get_assigned_to e of
                   Some a \<Rightarrow> ?R3\<lparr>assigned_to := spread (assigned_to ?R3) a\<rparr>
                 | None \<Rightarrow> ?R3"
      let ?R5 = "if truthy (get_workflow_status e)
                 then ?R4\<lparr>workflow_status := get_workflow_status e\<rparr>
                 else ?R4"
      from ensure_refines [OF assms(1) free] obtain h1
        where 1: "(if \<not> get_truthy deep (groupingOf h cov) ?cid
                   then newRecord h cov ?cid else Some h) = Some h1"
          "refines h0 h1 cov (AList.update ?cid ?R0 G)"
        by blast
      from appendItem_refines [OF 1(2) _ refines_readEntry [OF 1(2) assms(2)], of ?cid ?R0]
      obtain h2 where 2: "appendItem h1 cov ?cid item = Some h2"
          "refines h0 h2 cov (AList.update ?cid ?R1 G)"
        by (auto simp: update_conv')
      obtain h3 where 3: "(if truthy (get_g2_content_type e)
                    then setG2ContentType h2 cov ?cid (get_g2_content_type e)
                    else Some h2) = Some h3" "refines h0 h3 cov (AList.update ?cid ?R2 G)"
        using setG2ContentType_refines [OF 2(2), of ?cid ?R1 "get_g2_content_type e"] 2(2)
        by (cases "truthy (get_g2_content_type e)") (auto simp: update_conv')
      obtain h4 where 4: "(if truthy (get_scheduled e)
                    then setScheduled h3 cov ?cid (map_option Moment (get_scheduled e))
                    else Some h3) = Some h4" "refines h0 h4 cov (AList.update ?cid ?R3 G)"
        using setScheduled_refines [OF 3(2), of ?cid ?R2 "map_option Moment (get_scheduled e)"] 3(2)
        by (cases "truthy (get_scheduled e)") (auto simp: update_conv')
      obtain h5 where 5: "(case get_assigned_to e of
                      Some a \<Rightarrow> setAssignedTo h4 cov ?cid a
                    | None \<Rightarrow> Some h4) = Some h5" "refines h0 h5 cov (AList.update ?cid ?R4 G)"
        using setAssignedTo_refines [OF 4(2), of ?cid ?R3] 4(2)
        by (cases "get_assigned_to e") (auto simp: update_conv')
      obtain h6 where 6: "(if truthy (get_workflow_status e)
              then setWorkflowStatus h5 cov ?cid (get_workflow_status e)
              else Some h5) = Some h6" "refines h0 h6 cov (AList.update ?cid ?R5 G)"
        using setWorkflowStatus_refines [OF 5(2), of ?cid ?R4 "get_workflow_status e"] 5(2)
        by (cases "truthy (get_workflow_status e)") (auto simp: update_conv')
      have pure: "coverageHistoryStep deep G e = Inr (AList.update ?cid ?R5 G)"
        using True free
        by (simp add: coverageHistoryStep_cases groupStep_def writeCoverage_def Let_def)
      have "coverageHistoryStep_st deep h cov item = (h6, None)"
        using e True 1(1) 2(1) 3(1) 4(1) 5(1) 6(1)
        by (simp add: coverageHistoryStep_st_def)
      with pure 6(2) show ?thesis
        by simp
    qed
  qed
qed

lemma coverageHistoryLoop_refines:
  assumes "refines h0 h cov G" and "those (map (readEntry h0) elems) = Some es"
  shows "\<exists>h'. grown h0 h'
           \<and> (case coverageHistoryForEach deep G es of
                 Inl err \<Rightarrow> coverageHistoryLoop deep h cov elems = (h', Some err)
               | Inr G' \<Rightarrow> coverageHistoryLoop deep h cov elems = (h', None)
                            \<and> refines h0 h' cov G')"
  using assms
proof (induction elems arbitrary: h G es)
  case Nil
  then show ?case by (auto simp: refines_def building_def)
next
  case (Cons item rest)
  from Cons.prems(2) obtain e es' where e: "readEntry h0 item = Some e"
      and es': "those (map (readEntry h0) rest) = Some es'" and es: "es = e # es'"
    by (auto split: option.splits)
  show ?case
  proof (cases "coverageHistoryStep deep G e")
    case (Inl err)
    with coverageHistoryStep_st_refines [OF Cons.prems(1) e, of deep] obtain h1
      where "coverageHistoryStep_st deep h cov item = (h1, Some err)" "refines h0 h1 cov G"
      by auto
    with Inl es show ?thesis
      by (auto simp: refines_def building_def)
  next
    case (Inr G1)
    with coverageHistoryStep_st_refines [OF Cons.prems(1) e, of deep] obtain h1
      where 1: "coverageHistoryStep_st deep h cov item = (h1, None)" "refines h0 h1 cov G1"
      by auto
    from Cons.IH [OF 1(2) es'] Inr 1(1) es show ?thesis
      by (cases "coverageHistoryForEach deep G1 es'") auto
  qed
qed

text \<open>
  Called on an array of entries in a store, \<open>getGroupedCoverageHistory\<close> leaves a store
  that begins with the store of the call; it raises when the helper on values raises on
  the entries, and otherwise returns an object that reads back as the grouping the
  helper on values returns.
\<close>

lemma store_grouping_refines:
  assumes "readEntries h historyItems = Some es"
  shows "\<exists>h'. take (length h) h' = h
           \<and> (case getGroupedCoverageHistory deep es of
                 Inl err \<Rightarrow> getGroupedCoverageHistory_st deep h historyItems = (h', Inl err)
               | Inr G \<Rightarrow> (\<exists>r. getGroupedCoverageHistory_st deep h historyItems = (h', Inr r)
                              \<and> groupingOf h' r = G))"
proof -
  from assms obtain elems where el: "readArray h historyItems = Some elems"
      and es: "those (map (readEntry h) elems) = Some es"
    by (auto simp: readEntries_def split: Option.bind_splits)
  let ?h1 = "h @ [CovHistory []]"
  from el have el1: "readArray ?h1 historyItems = Some elems"
    by (auto simp: readArray_def readCell_def nth_append split: if_splits)
  have "building h ?h1 (length h)"
    unfolding building_def
    using grown_alloc [OF grown_refl, of h "CovHistory []"]
    by (simp add: cellOk_def newAt_def)
  then have "refines h ?h1 (length h) []"
    by (simp add: refines_def separate_def groupingOf_def readCovHistory_def readCell_def)
  from coverageHistoryLoop_refines [OF this es, of deep] obtain h'
    where g: "grown h h'"
      and l: "case coverageHistoryForEach deep [] es of
                 Inl err \<Rightarrow> coverageHistoryLoop deep ?h1 (length h) elems = (h', Some err)
               | Inr G' \<Rightarrow> coverageHistoryLoop deep ?h1 (length h) elems = (h', None)
                            \<and> refines h h' (length h) G'"
    by blast
  from g have "take (length h) h' = h"
    by (simp add: grown_def)
  moreover from l el1
  have "case getGroupedCoverageHistory deep es of
          Inl err \<Rightarrow> getGroupedCoverageHistory_st deep h historyItems = (h', Inl err)
        | Inr G \<Rightarrow> (\<exists>r. getGroupedCoverageHistory_st deep h historyItems = (h', Inr r)
                       \<and> groupingOf h' r = G)"
    by (auto simp: getGroupedCoverageHistory_st_def getGroupedCoverageHistory_def alloc_def
        refines_def split: sum.splits)
  ultimately show ?thesis
    by blast
qed

lemma those_snoc:
  "those (map f xs) = Some ys \<Longrightarrow> f x = Some y \<Longrightarrow> those (map f (xs @ [x])) = Some (ys @ [y])"
  by (induction xs arbitrary: ys) (auto split: option.splits)

lemma planningHistoryLoop_refines:
  assumes "grown h0 h" and "newAt (length h0) h KArray history"
    and "readEntries h history = Some acc"
    and "those (map (readEntry h0) elems) = Some es"
  shows "\<exists>h'. planningHistoryLoop h history elems = Some h'
           \<and> readEntries h' history = Some (foldl planningHistoryStep acc es)"
  using assms
proof (induction elems arbitrary: h acc es)
  case Nil
  then show ?case by simp
next
  case (Cons item rest)
  from Cons.prems(4) obtain e es' where e0: "readEntry h0 item = Some e"
      and es': "those (map (readEntry h0) rest) = Some es'" and es: "es = e # es'"
    by (auto split: option.splits)
  from Cons.prems(1) e0 have e: "readEntry h item = Some e"
    by (rule readEntry_grown)
  from read_newAt(1) [OF Cons.prems(2)] obtain xs
    where xs: "readArray h history = Some xs" "h ! history = Array xs"
    by blast
  with Cons.prems(3) have acc: "those (map (readEntry h) xs) = Some acc"
    by (simp add: readEntries_def)
  have "\<exists>h1. planningHistoryStep_st h history item = Some h1 \<and> grown h0 h1
            \<and> newAt (length h0) h1 KArray history
            \<and> readEntries h1 history = Some (planningHistoryStep acc e)"
  proof (cases "truthy (get_coverage_id e)")
    case True
    with e Cons.prems show ?thesis
      by (simp add: planningHistoryStep_st_def planningHistoryStep_def)
  next
    case False
    let ?h1 = "h[history := Array (xs @ [item])]"
    have "grown h0 ?h1"
      using Cons.prems(1,2) xs by (intro grown_write) (simp_all add: newAt_def cellOk_def)
    moreover have n1: "newAt (length h0) ?h1 KArray history"
      using Cons.prems(2) by (simp add: newAt_def)
    moreover have "readEntry ?h1 = readEntry h"
      using Cons.prems(2) by (intro readEntry_update) (simp_all add: newAt_def)
    then have "readEntries ?h1 history = Some (acc @ [e])"
      using n1 those_snoc [OF acc e]
      by (simp add: readEntries_def readArray_def readCell_def newAt_def)
    ultimately show ?thesis
      using False e xs
      by (simp add: planningHistoryStep_st_def push_def writeCell_def planningHistoryStep_def)
  qed
  then obtain h1 where 1: "planningHistoryStep_st h history item = Some h1" "grown h0 h1"
      "newAt (length h0) h1 KArray history"
      "readEntries h1 history = Some (planningHistoryStep acc e)"
    by blast
  from Cons.IH [OF 1(2,3,4) es'] 1(1) es show ?case
    by simp
qed

text \<open>
  Called on an array of entries in a store, \<open>getPlanningItemHistory\<close> returns, and the
  array it returns reads back as the planning-item history of the entries.
\<close>

lemma store_planning_history_refines:
  assumes "readEntries h historyItems = Some es"
  shows "\<exists>h' r. getPlanningItemHistory_st h historyItems = Some (h', r)
           \<and> readEntries h' r = Some (getPlanningItemHistory es)"
proof -
  from assms obtain elems where el: "readArray h historyItems = Some elems"
      and es: "those (map (readEntry h) elems) = Some es"
    by (auto simp: readEntries_def split: Option.bind_splits)
  let ?h1 = "h @ [Array []]"
  have "grown h ?h1"
    using grown_refl by (rule grown_alloc) (simp add: cellOk_def)
  moreover have "newAt (length h) ?h1 KArray (length h)"
    by (simp add: newAt_def)
  moreover have "readEntries ?h1 (length h) = Some []"
    by (simp add: readEntries_def readArray_def readCell_def)
  ultimately obtain h' where "planningHistoryLoop ?h1 (length h) elems = Some h'"
      "readEntries h' (length h) = Some (foldl planningHistoryStep [] es)"
    using planningHistoryLoop_refines [OF _ _ _ es] by blast
  with el show ?thesis
    by (simp add: getPlanningItemHistory_st_def alloc_def getPlanningItemHistory_def)
qed

subsection \<open>Neither helper writes to an object it was given\<close>

lemma entryArray_readEntries:
  assumes "entryArray h a"
  shows "\<exists>es. readEntries h a = Some es"
proof -
  have "\<exists>ys. those (map f xs) = Some ys" if "list_all (\<lambda>x. f x \<noteq> None) xs"
    for f :: "addr \<Rightarrow> history_item option" and xs
    using that by (induction xs) auto
  with assms show ?thesis
    by (auto simp: entryArray_def readEntries_def split: option.splits)
qed

text \<open>
  C7: called on an array of entries in a store, \<open>getPlanningItemHistory\<close> returns, and the
  store it leaves behind begins with the store of the call, cell for cell.
  \<open>getGroupedCoverageHistory\<close> returns when the coverage ids of the entries are plain, and
  whether it returns or raises, the store it leaves behind begins with the store of the
  call, cell for cell. So the input array and every entry (and every other object that
  existed before the call) are what they were; all writes went to objects the call
  created.
\<close>

theorem history_helpers_leave_input_unchanged:
  assumes "entryArray h historyItems"
  shows "(\<exists>h1 r1. getPlanningItemHistory_st h historyItems = Some (h1, r1)
                \<and> take (length h) h1 = h)
       \<and> take (length h) (fst (getGroupedCoverageHistory_st deep h historyItems)) = h
       \<and> (\<exists>es. readEntries h historyItems = Some es
              \<and> (plainIds es \<longrightarrow>
                    (\<exists>r2. snd (getGroupedCoverageHistory_st deep h historyItems) = Inr r2)))"
proof -
  from assms obtain elems where el: "readArray h historyItems = Some elems"
      and all: "list_all (\<lambda>x. readEntry h x \<noteq> None) elems"
    by (auto simp: entryArray_def split: option.splits)
  have "grown h (h @ [Array []])"
    using grown_refl by (rule grown_alloc) (simp add: cellOk_def)
  moreover have "newAt (length h) (h @ [Array []]) KArray (length h)"
    by (simp add: newAt_def)
  ultimately obtain h1 where 1: "planningHistoryLoop (h @ [Array []]) (length h) elems = Some h1"
      "grown h h1"
    using planningHistoryLoop_ok [OF _ _ all] by blast
  from el 1 have planning: "\<exists>h1 r1. getPlanningItemHistory_st h historyItems = Some (h1, r1)
                \<and> take (length h) h1 = h"
    by (simp add: getPlanningItemHistory_st_def alloc_def grown_def)
  from entryArray_readEntries [OF assms] obtain es
    where es: "readEntries h historyItems = Some es"
    by blast
  from store_grouping_refines [OF es, of deep] obtain h'
    where h': "take (length h) h' = h"
      and out: "case getGroupedCoverageHistory deep es of
                 Inl err \<Rightarrow> getGroupedCoverageHistory_st deep h historyItems = (h', Inl err)
               | Inr G \<Rightarrow> (\<exists>r. getGroupedCoverageHistory_st deep h historyItems = (h', Inr r)
                              \<and> groupingOf h' r = G)"
    by blast
  from out have "fst (getGroupedCoverageHistory_st deep h historyItems) = h'"
    by (auto split: sum.splits)
  with h' have frame: "take (length h) (fst (getGroupedCoverageHistory_st deep h historyItems)) = h"
    by simp
  have "\<exists>r2. snd (getGroupedCoverageHistory_st deep h historyItems) = Inr r2" if "plainIds es"
    using out grouped_returns [OF that, of deep] by auto
  with planning frame es show ?thesis
    by blast
qed

theorem history_helpers_leave_input_unchanged_witness:
  "entryArray exampleStore 2
   \<and> readEntries exampleStore 2 = Some [entryDesk, entryEmptyId]
   \<and> plainIds [entryDesk, entryEmptyId]
   \<and> getPlanningItemHistory_st exampleStore 2 = Some (exampleStore @ [Array [1]], 3)
   \<and> getGroupedCoverageHistory_st (\<lambda>covHistory cid. True) exampleStore 2 =
       (exampleStore @
          [CovHistory [(''c1'', 7)], Array [],
           Planning \<lparr>cov_g2_content_type = Some ''text'',
                     cov_scheduled = Some (Moment ''2019-01-01'')\<rparr>,
           AssignedTo [], CovRecord 8 5 9 (Some ''draft''), Array [0],
           AssignedTo [(''desk'', ''d1'')]], Inr 3)
   \<and> take (length exampleStore)
        (fst (getGroupedCoverageHistory_st (\<lambda>covHistory cid. True) exampleStore 2)) = exampleStore
   \<and> entryArray inheritedNameStore 2
   \<and> getGroupedCoverageHistory_st (\<lambda>covHistory cid. True) inheritedNameStore 2 =
       (inheritedNameStore @
          [CovHistory [(''c1'', 7)], Array [],
           Planning \<lparr>cov_g2_content_type = Some ''text'',
                     cov_scheduled = Some (Moment ''2019-01-01'')\<rparr>,
           AssignedTo [], CovRecord 8 5 9 (Some ''draft''), Array [0],
           AssignedTo [(''desk'', ''d1'')]], Inl TypeError)
   \<and> take (length inheritedNameStore)
        (fst (getGroupedCoverageHistory_st (\<lambda>covHistory cid. True) inheritedNameStore 2))
       = inheritedNameStore"
proof -
  have a: "entryArray exampleStore 2" and b: "entryArray inheritedNameStore 2"
    by (simp_all add: entryArray_def readArray_def readCell_def readEntry_def exampleStore_def
        inheritedNameStore_def)
  have r: "readEntries exampleStore 2 = Some [entryDesk, entryEmptyId]"
    by (simp add: readEntries_def readArray_def readCell_def readEntry_def exampleStore_def)
  have c: "get_coverage_id entryEmptyId = Some []" "get_coverage_id entryDesk = Some ''c1''"
      "get_coverage_id entryConstructor = Some ''constructor''"
    by (simp_all add: get_coverage_id_def entryEmptyId_def entryDesk_def entryConstructor_def)
  have d: "get_g2_content_type entryDesk = Some ''text''"
      "get_scheduled entryDesk = Some ''2019-01-01''"
      "get_assigned_to entryDesk = Some [(''desk'', ''d1'')]"
      "get_workflow_status entryDesk = Some ''draft''"
    by (simp_all add: get_g2_content_type_def get_scheduled_def get_assigned_to_def
        get_workflow_status_def entryDesk_def)
  have i: "plainIds [entryDesk, entryEmptyId]"
    by (rule example_plainIds)
  have p: "getPlanningItemHistory_st exampleStore 2 = Some (exampleStore @ [Array [1]], 3)"
    by (simp add: getPlanningItemHistory_st_def readArray_def readCell_def readEntry_def
        exampleStore_def alloc_def planningHistoryStep_st_def push_def writeCell_def
        c truthy_def)
  have g: "getGroupedCoverageHistory_st (\<lambda>covHistory cid. True) exampleStore 2 =
       (exampleStore @
          [CovHistory [(''c1'', 7)], Array [],
           Planning \<lparr>cov_g2_content_type = Some ''text'',
                     cov_scheduled = Some (Moment ''2019-01-01'')\<rparr>,
           AssignedTo [], CovRecord 8 5 9 (Some ''draft''), Array [0],
           AssignedTo [(''desk'', ''d1'')]], Inr 3)"
    by (simp add: getGroupedCoverageHistory_st_def readArray_def readCell_def readEntry_def
        exampleStore_def alloc_def coverageHistoryStep_st_def writeCell_def
        c d truthy_def newRecord_def groupingOf_def get_truthy_plain objectPrototypeNames_def
        pathLike_def readCovHistory_def appendItem_def recordAt_def setG2ContentType_def
        setScheduled_def setAssignedTo_def setWorkflowStatus_def readPlanning_def
        readAssignedTo_def spread_def nth_append)
  have n: "getGroupedCoverageHistory_st (\<lambda>covHistory cid. True) inheritedNameStore 2 =
       (inheritedNameStore @
          [CovHistory [(''c1'', 7)], Array [],
           Planning \<lparr>cov_g2_content_type = Some ''text'',
                     cov_scheduled = Some (Moment ''2019-01-01'')\<rparr>,
           AssignedTo [], CovRecord 8 5 9 (Some ''draft''), Array [0],
           AssignedTo [(''desk'', ''d1'')]], Inl TypeError)"
    by (simp add: getGroupedCoverageHistory_st_def readArray_def readCell_def readEntry_def
        inheritedNameStore_def alloc_def coverageHistoryStep_st_def writeCell_def
        c d truthy_def newRecord_def groupingOf_def get_truthy_plain objectPrototypeNames_def
        pathLike_def readCovHistory_def appendItem_def recordAt_def setG2ContentType_def
        setScheduled_def setAssignedTo_def setWorkflowStatus_def readPlanning_def
        readAssignedTo_def spread_def nth_append)
  from history_helpers_leave_input_unchanged [OF a, of "\<lambda>covHistory cid. True"]
       history_helpers_leave_input_unchanged [OF b, of "\<lambda>covHistory cid. True"]
       a b r i p g n
  show ?thesis
    by simp
qed

section \<open>Properties of the coverage assignment modal\<close>

lemma unsafeKeys_not_index: "k \<in> set unsafeKeys \<Longrightarrow> \<not> isIndex k"
  by (auto simp: unsafeKeys_def isIndex_def)

lemma nextValue_plain:
  assumes "k \<notin> set objectPrototypeNames" and "\<not> isIndex k'"
  shows "nextValue kvs k k' =
           Some (case map_of kvs k of Some (JObj sub) \<Rightarrow> JObj sub | _ \<Rightarrow> JObj [])"
  using assms by (simp add: nextValue_def split: option.splits jsvalue.splits)

text \<open>
  A write along a path of ordinary property names, up to a key that \<open>set\<close> refuses, leaves
  every path that neither leads to it nor lies below it as it was.
\<close>

lemma getPath_setPath_other:
  assumes "list_all (\<lambda>k. plainName k \<or> k \<in> set unsafeKeys) p"
    and "\<not> prefix p q" and "\<not> prefix q p"
  shows "getPath (setPath beyond d p v) q = getPath d q"
  using assms
proof (induction p arbitrary: d q)
  case Nil
  then show ?case by simp
next
  case (Cons k ks)
  from Cons.prems(3) obtain k2 q2 where q: "q = k2 # q2"
    by (cases q) auto
  show ?case
  proof (cases d)
    case (JObj kvs)
    show ?thesis
    proof (cases "k \<in> set unsafeKeys")
      case True
      then show ?thesis by (simp add: JObj)
    next
      case False
      with Cons.prems(1) have k: "k \<notin> set objectPrototypeNames"
        by (simp add: plainName_def)
      show ?thesis
      proof (cases "ks = []")
        case True
        with Cons.prems(2) q have "k2 \<noteq> k"
          by auto
        with True False show ?thesis
          by (simp add: JObj q update_conv')
      next
        case ne: False
        from ne Cons.prems(1) have "plainName (hd ks) \<or> hd ks \<in> set unsafeKeys"
          by (cases ks) simp_all
        then have "\<not> isIndex (hd ks)"
          by (auto simp: plainName_def unsafeKeys_not_index)
        from nextValue_plain [OF k this]
        have n: "nextValue kvs k (hd ks) =
                   Some (case map_of kvs k of Some (JObj sub) \<Rightarrow> JObj sub | _ \<Rightarrow> JObj [])" .
        let ?sub = "case map_of kvs k of Some (JObj sub) \<Rightarrow> JObj sub | _ \<Rightarrow> JObj []"
        show ?thesis
        proof (cases "k2 = k")
          case False
          with \<open>k \<notin> set unsafeKeys\<close> ne n show ?thesis
            by (simp add: JObj q update_conv')
        next
          case True
          with Cons.prems(2,3) q have np: "\<not> prefix ks q2" "\<not> prefix q2 ks"
            by simp_all
          then have q2: "q2 \<noteq> []" by auto
          from Cons.prems(1) have "list_all (\<lambda>k. plainName k \<or> k \<in> set unsafeKeys) ks"
            by simp
          from Cons.IH [OF this np]
          have ih: "getPath (setPath beyond ?sub ks v) q2 = getPath ?sub q2" .
          have "getPath ?sub q2 = (case map_of kvs k of None \<Rightarrow> None | Some c \<Rightarrow> getPath c q2)"
            using q2 by (cases q2) (auto split: option.splits jsvalue.splits)
          with ih \<open>k \<notin> set unsafeKeys\<close> ne n show ?thesis
            by (simp add: JObj q True update_conv')
        qed
      qed
    qed
  qed (simp_all add: q)
qed

text \<open>A write along a path of ordinary property names into an object is read back there.\<close>

lemma getPath_setPath_same:
  assumes "list_all plainName p" and "p \<noteq> []"
  shows "getPath (setPath beyond (JObj kvs) p v) p = Some v"
  using assms
proof (induction p arbitrary: kvs)
  case Nil
  then show ?case by simp
next
  case (Cons k ks)
  from Cons.prems(1) have k: "k \<notin> set unsafeKeys" "k \<notin> set objectPrototypeNames"
    by (simp_all add: plainName_def)
  show ?case
  proof (cases "ks = []")
    case True
    with k show ?thesis
      by (simp add: update_conv')
  next
    case False
    with Cons.prems(1) have "\<not> isIndex (hd ks)"
      by (cases ks) (simp_all add: plainName_def)
    from nextValue_plain [OF k(2) this]
    have n: "nextValue kvs k (hd ks) =
               Some (case map_of kvs k of Some (JObj sub) \<Rightarrow> JObj sub | _ \<Rightarrow> JObj [])" .
    let ?sub = "case map_of kvs k of Some (JObj sub) \<Rightarrow> JObj sub | _ \<Rightarrow> JObj []"
    have "\<exists>kvs'. ?sub = JObj kvs'"
      by (simp split: option.split jsvalue.split)
    then obtain kvs' where s: "?sub = JObj kvs'"
      by blast
    from Cons.prems(1) have "list_all plainName ks"
      by simp
    from Cons.IH [OF this False, of kvs'] have "getPath (setPath beyond (JObj kvs') ks v) ks = Some v" .
    with s n k False show ?thesis
      by (simp add: update_conv')
  qed
qed

lemma setPath_unsafe:
  "p \<noteq> [] \<Longrightarrow> hd p \<in> set unsafeKeys \<Longrightarrow> setPath beyond d p v = d"
  by (cases p; cases d) simp_all

lemma assignmentOnChange_eq:
  "diff st < length h \<Longrightarrow>
     assignmentOnChange beyond h st p v
       = Some (h @ [setPath beyond (h ! diff st) p v], st\<lparr>diff := length h\<rparr>, [])"
  by (simp add: assignmentOnChange_def cloneDeep_def readCell_def alloc_def writeCell_def
      nth_append)

lemma assignmentChanges_frame:
  "diff st < length h \<Longrightarrow>
     \<exists>h' st'. assignmentChanges beyond h st changes = Some (h', st', [])
        \<and> take (length h) h' = h \<and> diff st' < length h'
        \<and> (length h0 \<le> diff st \<longrightarrow> length h0 \<le> length h \<longrightarrow> length h0 \<le> diff st')"
proof (induction changes arbitrary: h st)
  case Nil
  then show ?case by simp
next
  case (Cons c changes)
  obtain p v where c: "c = (p, v)"
    by (cases c)
  let ?h1 = "h @ [setPath beyond (h ! diff st) p v]"
  let ?st1 = "st\<lparr>diff := length h\<rparr>"
  have "diff ?st1 < length ?h1"
    by simp
  from Cons.IH [OF this] obtain h' st'
    where r: "assignmentChanges beyond ?h1 ?st1 changes = Some (h', st', [])"
      and t: "take (length ?h1) h' = ?h1" and d: "diff st' < length h'"
      and b: "length h0 \<le> diff ?st1 \<longrightarrow> length h0 \<le> length ?h1 \<longrightarrow> length h0 \<le> diff st'"
    by blast
  have "take (length h) h' = take (length h) (take (length ?h1) h')"
    by (simp add: min_def)
  with t have "take (length h) h' = h"
    by simp
  with r d b Cons.prems show ?case
    by (simp add: c assignmentOnChange_eq)
qed

text \<open>
  C10: in the modal as built from \<open>modalProps.value\<close> and after any sequence of field
  changes, along any paths, no call on the props has been made, and the store still
  begins with the store the modal was built in, so \<open>modalProps.value\<close> and every other
  object of the caller is what it was; the draft is an object the modal made. A further
  \<open>onChange(p, v)\<close>, for any path, writes to a new copy of the draft only and makes no
  call on the props. When the keys of \<open>p\<close> are ordinary property names, up to a key that
  \<open>set\<close> refuses, every path that neither leads to \<open>p\<close> nor lies below it reads in the new
  draft as it did in the old one; when they all are ordinary property names and the draft
  is an object, \<open>p\<close> reads \<open>v\<close>; when the first key is one that \<open>set\<close> refuses, the new
  draft is the old one. \<open>setValid\<close> makes no call either; \<open>onSubmit\<close> calls \<open>onChange\<close>,
  \<open>setCoverageDefaultDesk\<close> and \<open>handleHide\<close>, in that order, with the draft.
\<close>

theorem assignment_draft_is_private:
  assumes "\<forall>a. modalValue = Some a \<longrightarrow> a < length h"
  shows "\<exists>h' st' d'.
           assignmentEdit beyond h modalValue changes = Some (h', st', [])
         \<and> take (length h) h' = h
         \<and> length h \<le> diff st' \<and> diff st' < length h'
         \<and> assignmentOnChange beyond h' st' p v = Some (h' @ [d'], st'\<lparr>diff := length h'\<rparr>, [])
         \<and> d' = setPath beyond (h' ! diff st') p v
         \<and> (list_all (\<lambda>k. plainName k \<or> k \<in> set unsafeKeys) p \<longrightarrow>
              (\<forall>q. \<not> prefix p q \<and> \<not> prefix q p \<longrightarrow> getPath d' q = getPath (h' ! diff st') q))
         \<and> (list_all plainName p \<and> p \<noteq> [] \<longrightarrow>
              (\<forall>kvs. h' ! diff st' = JObj kvs \<longrightarrow> getPath d' p = Some v))
         \<and> (p \<noteq> [] \<and> hd p \<in> set unsafeKeys \<longrightarrow> d' = h' ! diff st')
         \<and> snd (snd (setValid h' st' b)) = []
         \<and> snd (snd (assignmentOnSubmit h' st' modalField))
             = [PropsOnChange modalField (diff st'), SetCoverageDefaultDesk (diff st'), HandleHide]"
proof -
  obtain d where m: "assignmentModal h modalValue
      = Some (h @ [d], \<lparr>submitting = False, diff = length h, valid = True\<rparr>)"
    using assms
    by (cases modalValue) (simp_all add: assignmentModal_def cloneDeep_def readCell_def alloc_def)
  let ?h1 = "h @ [d]"
  let ?st1 = "\<lparr>submitting = False, diff = length h, valid = True\<rparr>"
  have "diff ?st1 < length ?h1"
    by simp
  from assignmentChanges_frame [OF this, of beyond changes h] obtain h' st'
    where r: "assignmentChanges beyond ?h1 ?st1 changes = Some (h', st', [])"
      and t: "take (length ?h1) h' = ?h1" and dl: "diff st' < length h'"
      and b: "length h \<le> diff st'"
    by auto
  have "take (length h) h' = take (length h) (take (length ?h1) h')"
    by (simp add: min_def)
  with t have "take (length h) h' = h"
    by simp
  with m r dl b show ?thesis
    by (auto simp: assignmentEdit_def assignmentOnChange_eq getPath_setPath_other
        getPath_setPath_same setPath_unsafe setValid_def assignmentOnSubmit_def)
qed

theorem assignment_draft_is_private_witness:
  "assignmentEdit (\<lambda>k ks v. JNull) [exampleAssignment] (Some 0) [([''desk''], JStr ''news'')]
     = Some ([exampleAssignment, exampleAssignment,
              JObj [(''desk'', JStr ''news''),
                    (''coverage_provider'', JObj [(''qcode'', JStr ''stringer'')])]],
             \<lparr>submitting = False, diff = 2, valid = True\<rparr>, [])
   \<and> list_all plainName [''coverage_provider'', ''qcode'']
   \<and> assignmentOnChange (\<lambda>k ks v. JNull)
        [exampleAssignment, exampleAssignment,
         JObj [(''desk'', JStr ''news''),
               (''coverage_provider'', JObj [(''qcode'', JStr ''stringer'')])]]
        \<lparr>submitting = False, diff = 2, valid = True\<rparr>
        [''coverage_provider'', ''qcode''] (JStr ''agency'')
     = Some ([exampleAssignment, exampleAssignment,
              JObj [(''desk'', JStr ''news''),
                    (''coverage_provider'', JObj [(''qcode'', JStr ''stringer'')])],
              JObj [(''desk'', JStr ''news''),
                    (''coverage_provider'', JObj [(''qcode'', JStr ''agency'')])]],
             \<lparr>submitting = False, diff = 3, valid = True\<rparr>, [])
   \<and> getPath (JObj [(''desk'', JStr ''news''),
                     (''coverage_provider'', JObj [(''qcode'', JStr ''agency'')])])
        [''coverage_provider'', ''qcode''] = Some (JStr ''agency'')
   \<and> getPath (JObj [(''desk'', JStr ''news''),
                     (''coverage_provider'', JObj [(''qcode'', JStr ''agency'')])])
        [''desk''] = Some (JStr ''news'')"
proof -
  have e: "assignmentEdit (\<lambda>k ks v. JNull) [exampleAssignment] (Some 0) [([''desk''], JStr ''news'')]
     = Some ([exampleAssignment, exampleAssignment,
              JObj [(''desk'', JStr ''news''),
                    (''coverage_provider'', JObj [(''qcode'', JStr ''stringer'')])]],
             \<lparr>submitting = False, diff = 2, valid = True\<rparr>, [])"
    by (simp add: assignmentEdit_def assignmentModal_def cloneDeep_def readCell_def alloc_def
        assignmentOnChange_def writeCell_def exampleAssignment_def unsafeKeys_def)
  have a: "\<forall>a. Some (0::nat) = Some a \<longrightarrow> a < length [exampleAssignment]"
    by simp
  have n: "list_all plainName [''coverage_provider'', ''qcode'']"
    by (simp add: plainName_def objectPrototypeNames_def unsafeKeys_def isIndex_def)
  have s: "setPath (\<lambda>k ks v. JNull)
             (JObj [(''desk'', JStr ''news''),
                    (''coverage_provider'', JObj [(''qcode'', JStr ''stringer'')])])
             [''coverage_provider'', ''qcode''] (JStr ''agency'')
           = JObj [(''desk'', JStr ''news''),
                   (''coverage_provider'', JObj [(''qcode'', JStr ''agency'')])]"
    by (simp add: unsafeKeys_def nextValue_def)
  from assignment_draft_is_private [OF a, of "\<lambda>k ks v. JNull" "[([''desk''], JStr ''news'')]"
         "[''coverage_provider'', ''qcode'']" "JStr ''agency''"]
  show ?thesis
    unfolding e using n s by (auto simp: exampleAssignment_def)
qed

lemma set_refuses_constructor:
  "assignmentOnChange beyond [exampleAssignment]
     \<lparr>submitting = False, diff = 0, valid = True\<rparr> [''constructor'', ''name''] (JStr ''x'')
   = Some ([exampleAssignment, exampleAssignment],
           \<lparr>submitting = False, diff = 1, valid = True\<rparr>, [])"
  by (simp add: assignmentOnChange_def cloneDeep_def readCell_def alloc_def writeCell_def
      exampleAssignment_def unsafeKeys_def)

end
